theory Spec2Isabelle
  imports Complex_Main "HOL-Library.Sublist" "HOL-Library.AList"
begin

section \<open>Thrown values and the rate-limit signature\<close>

text \<open>
  \<^verbatim>\<open>catch (error: any)\<close> in \<^verbatim>\<open>services/geminiService.ts\<close> reads two properties of the
  thrown value through optional chaining: \<^verbatim>\<open>error?.message\<close> and \<^verbatim>\<open>error?.status\<close>.
  A thrown value is therefore either nullish (\<^verbatim>\<open>undefined\<close>, \<^verbatim>\<open>null\<close>) or an object with
  an optional string message and an optional numeric status.
\<close>

record js_error =
  message :: "string option"
  status :: "int option"

datatype thrown = Nullish | ErrorObj js_error

text \<open>\<^verbatim>\<open>String.prototype.includes\<close>: the needle occurs at some position of the text.\<close>

fun str_includes :: "string \<Rightarrow> string \<Rightarrow> bool" where
  "str_includes [] t = (t = [])"
| "str_includes (c # cs) t = (prefix t (c # cs) \<or> str_includes cs t)"

text \<open>\<^verbatim>\<open>const errorText = error?.message || ''\<close>\<close>

definition errorText :: "thrown \<Rightarrow> string" where
  "errorText e =
     (case e of
        Nullish \<Rightarrow> []
      | ErrorObj r \<Rightarrow> (case message r of None \<Rightarrow> [] | Some m \<Rightarrow> m))"

text \<open>\<^verbatim>\<open>error?.status === 429\<close>\<close>

definition status_is_429 :: "thrown \<Rightarrow> bool" where
  "status_is_429 e = (case e of Nullish \<Rightarrow> False | ErrorObj r \<Rightarrow> js_error.status r = Some 429)"

text \<open>
  \<^verbatim>\<open>const isRateLimit = errorText.includes('429') || errorText.includes('quota')
     || error?.status === 429;\<close>
\<close>

definition isRateLimit :: "thrown \<Rightarrow> bool" where
  "isRateLimit e =
     (str_includes (errorText e) ''429'' \<or> str_includes (errorText e) ''quota'' \<or> status_is_429 e)"

section \<open>The retry wrapper\<close>

text \<open>
  What one run of \<^verbatim>\<open>withRetry\<close> does: the value it resolves with or the value it throws,
  the timeouts it waited for (milliseconds, in order), and how often it invoked the
  operation.
\<close>

record 'a run =
  result :: "thrown + 'a"
  delays :: "real list"
  calls :: nat

text \<open>
  The wrapped operation \<^verbatim>\<open>fn\<close> is effectful; \<open>fn i\<close> is the outcome of its invocation
  number \<open>i\<close> (0-based). Iteration \<open>i\<close> of the \<^verbatim>\<open>for\<close> loop performs exactly that
  invocation. \<open>random i\<close> is the value \<^verbatim>\<open>Math.random()\<close> returns in iteration \<open>i\<close>.
  \<^verbatim>\<open>
  for (let i = 0; i < maxRetries; i++) {
    try { return await fn(); }
    catch (error: any) {
      lastError = error;
      ...
      if (isRateLimit && i < maxRetries - 1) {
        const waitTime = Math.pow(2, i) * 1000 + Math.random() * 1000;
        await new Promise(resolve => setTimeout(resolve, waitTime));
        continue;
      }
      throw error;
    }
  }
  throw lastError;
  \<close>
  The waiting time is computed over the reals; the \<^verbatim>\<open>console.warn\<close> of a retry is left out.
\<close>

function withRetry_loop ::
  "(nat \<Rightarrow> thrown + 'a) \<Rightarrow> int \<Rightarrow> (nat \<Rightarrow> real) \<Rightarrow> nat \<Rightarrow> thrown \<Rightarrow> real list \<Rightarrow> 'a run"
where
  "withRetry_loop fn maxRetries random i lastError ds =
     (if int i < maxRetries then
        (case fn i of
           Inr v \<Rightarrow> \<lparr>result = Inr v, delays = ds, calls = Suc i\<rparr>
         | Inl err \<Rightarrow>
             if isRateLimit err \<and> int i < maxRetries - 1 then
               withRetry_loop fn maxRetries random (Suc i) err
                 (ds @ [2 ^ i * 1000 + random i * 1000])
             else \<lparr>result = Inl err, delays = ds, calls = Suc i\<rparr>)
      else \<lparr>result = Inl lastError, delays = ds, calls = i\<rparr>)"
  by pat_completeness auto
termination
  by (relation "measure (\<lambda>(fn, maxRetries, random, i, lastError, ds). nat (maxRetries - int i))")
     auto

text \<open>\<^verbatim>\<open>let lastError: any;\<close> starts out \<^verbatim>\<open>undefined\<close>.\<close>

definition withRetry :: "(nat \<Rightarrow> thrown + 'a) \<Rightarrow> int \<Rightarrow> (nat \<Rightarrow> real) \<Rightarrow> 'a run" where
  "withRetry fn maxRetries random = withRetry_loop fn maxRetries random 0 Nullish []"

text \<open>The three clients call \<^verbatim>\<open>withRetry(fn)\<close> with the default \<^verbatim>\<open>maxRetries = 3\<close>.\<close>

definition defaultMaxRetries :: int where
  "defaultMaxRetries = 3"

subsection \<open>Sample operations for the retry wrapper\<close>

definition quotaError :: thrown where
  "quotaError = ErrorObj \<lparr>message = Some ''Resource quota exceeded'', status = None\<rparr>"

definition networkError :: thrown where
  "networkError = ErrorObj \<lparr>message = Some ''fetch failed'', status = Some 500\<rparr>"

text \<open>Fails twice with a quota error, then resolves with 42.\<close>

definition flaky :: "nat \<Rightarrow> thrown + nat" where
  "flaky j = (if j < 2 then Inl quotaError else Inr 42)"

definition alwaysQuota :: "nat \<Rightarrow> thrown + nat" where
  "alwaysQuota j = Inl quotaError"

definition alwaysNetworkError :: "nat \<Rightarrow> thrown + nat" where
  "alwaysNetworkError j = Inl networkError"

definition halfJitter :: "nat \<Rightarrow> real" where
  "halfJitter j = 1 / 2"

section \<open>Data model of the dashboard\<close>

text \<open>\<^verbatim>\<open>types.ts\<close>: \<^verbatim>\<open>Lead\<close>, \<^verbatim>\<open>GeneratedEmail\<close>, \<^verbatim>\<open>CampaignStats\<close>, \<^verbatim>\<open>SearchParams\<close>, \<^verbatim>\<open>AppView\<close>.\<close>

datatype priority = High | Medium | Low

datatype lead_status = New | Qualified | Contacted | Responded | Unsubscribed

record lead =
  id :: string
  businessName :: string
  industry :: string
  city :: string
  website :: string
  phoneNumber :: "string option"
  email :: "string option"
  rationale :: "string option"
  priorityScore :: "priority option"
  priorityReason :: "string option"
  status :: lead_status
  addedAt :: string

text \<open>
  A discovered candidate is a \<^verbatim>\<open>Partial<Lead>\<close>: every property may be absent. The record
  holds the six properties the discovery prompt asks for, the only ones the components
  read from a candidate.
\<close>

record candidate =
  businessName :: "string option"
  industry :: "string option"
  city :: "string option"
  website :: "string option"
  phoneNumber :: "string option"
  rationale :: "string option"

record generatedEmail =
  subject :: string
  body :: string

record campaignStats =
  sent :: int
  opened :: int
  replied :: int
  clicks :: int
  dailyLimitUsed :: int

record searchParams =
  industry :: string
  city :: string

datatype appView = DASHBOARD | FINDER | LEADS | OUTREACH | INBOX

text \<open>The value \<^verbatim>\<open>qualifyLead\<close> resolves with: \<^verbatim>\<open>{ score, reason }\<close>.\<close>

record qualification =
  score :: priority
  reason :: string

text \<open>
  The calls of \<^verbatim>\<open>notify(message, type)\<close>. Each constructor stands for one message literal
  of the source; \<open>LeadsAdded n\<close> is \<^verbatim>\<open>`${n} leads added to database!`\<close>.
\<close>

datatype toast =
    LeadsAdded nat
  | LeadRemoved
  | CampaignMarkedSent
  | SearchQuotaExceeded
  | DiscoverFailed
  | QualificationQuotaHit
  | QualifyFailed

section \<open>State of the components\<close>

text \<open>
  One record for the \<^verbatim>\<open>useState\<close> cells of \<^verbatim>\<open>App\<close> (\<open>leads\<close>, \<open>stats\<close>, \<open>view\<close>,
  \<open>outreachLeads\<close>, \<open>toasts\<close>), of \<^verbatim>\<open>LeadDiscovery\<close> (\<open>params\<close>, \<open>discoveredLeads\<close>,
  \<open>fetchCount\<close>, \<open>selectedIndices\<close>, \<open>isQualifying\<close>, \<open>isBulkAdding\<close>, \<open>isSearching\<close>) and
  of \<^verbatim>\<open>Outreach\<close> (\<open>emails\<close>, \<open>sentStatus\<close>). \<open>leads\<close> is the lead store; \<^verbatim>\<open>LeadDiscovery\<close>
  receives it as \<^verbatim>\<open>existingLeads\<close>, and \<^verbatim>\<open>Outreach\<close> receives \<open>outreachLeads\<close> as
  \<^verbatim>\<open>selectedLeads\<close>. A handler is a function from the state in which it is called to the
  state after all its \<^verbatim>\<open>set...\<close> calls: it runs to completion on that state, and what
  another handler could change while it awaits is outside the model, as is the mounting
  and unmounting of the components.

  A JavaScript \<^verbatim>\<open>Set<number>\<close> iterates in insertion order, so \<open>selectedIndices\<close> is the
  list of its elements in that order. \<^verbatim>\<open>Record<string, boolean>\<close> and
  \<^verbatim>\<open>Record<string, GeneratedEmail>\<close> are association lists.
\<close>

record ui_state =
  leads :: "lead list"
  stats :: campaignStats
  view :: appView
  outreachLeads :: "lead list"
  toasts :: "toast list"
  params :: searchParams
  discoveredLeads :: "candidate list"
  fetchCount :: nat
  selectedIndices :: "nat list"
  isSearching :: bool
  isQualifying :: "string option"
  isBulkAdding :: bool
  emails :: "(string \<times> generatedEmail) list"
  sentStatus :: "(string \<times> bool) list"

text \<open>
  What a handler gets from outside the components: the outcome of the \<open>n\<close>-th call
  (0-based, counted within one handler run) of \<^verbatim>\<open>qualifyLead\<close> and of \<^verbatim>\<open>discoverLeads\<close>
  on its arguments, the \<open>n\<close>-th value of \<^verbatim>\<open>crypto.randomUUID()\<close> and of
  \<^verbatim>\<open>new Date().toISOString()\<close>, and the runtime's lower-casing of a string that has
  characters outside ASCII (the Unicode case mapping, a table of the runtime).
\<close>

record env =
  qualifyLead :: "nat \<Rightarrow> candidate \<Rightarrow> thrown + qualification"
  discoverLeads_call :: "string \<Rightarrow> string \<Rightarrow> nat \<Rightarrow> thrown + candidate list"
  randomUUID :: "nat \<Rightarrow> string"
  nowISO :: "nat \<Rightarrow> string"
  unicodeLowerCase :: "string \<Rightarrow> string"

subsection \<open>JavaScript helpers\<close>

text \<open>\<^verbatim>\<open>xs[i]\<close>: \<^verbatim>\<open>undefined\<close> out of range.\<close>

definition at_index :: "'a list \<Rightarrow> nat \<Rightarrow> 'a option" where
  "at_index xs i = (if i < length xs then Some (xs ! i) else None)"

text \<open>\<^verbatim>\<open>x || d\<close> on an optional string: absent and empty are both falsy.\<close>

definition or_else :: "string option \<Rightarrow> string \<Rightarrow> string" where
  "or_else x d = (case x of None \<Rightarrow> d | Some s \<Rightarrow> if s = [] then d else s)"

text \<open>\<^verbatim>\<open>Set.prototype.add\<close>, \<^verbatim>\<open>delete\<close>, \<^verbatim>\<open>has\<close> and \<^verbatim>\<open>new Set(array)\<close> on the insertion-ordered list.\<close>

definition set_has :: "nat list \<Rightarrow> nat \<Rightarrow> bool" where
  "set_has xs i = (i \<in> set xs)"

definition set_add :: "nat list \<Rightarrow> nat \<Rightarrow> nat list" where
  "set_add xs i = (if i \<in> set xs then xs else xs @ [i])"

definition set_delete :: "nat list \<Rightarrow> nat \<Rightarrow> nat list" where
  "set_delete xs i = removeAll i xs"

definition set_from_array :: "nat list \<Rightarrow> nat list" where
  "set_from_array arr = foldl set_add [] arr"

text \<open>
  \<^verbatim>\<open>String.prototype.toLowerCase\<close>. A string is the list of the bytes of its UTF-8
  encoding. On a string of ASCII characters the result is known: the letters \<open>A\<close> to \<open>Z\<close>
  become \<open>a\<close> to \<open>z\<close> and every other character stays. On any other string the result is
  what the Unicode case mapping of the runtime gives.
\<close>

definition is_ascii :: "char \<Rightarrow> bool" where
  "is_ascii c = ((of_char c :: nat) < 128)"

definition lower_char :: "char \<Rightarrow> char" where
  "lower_char c =
     (case map_of (zip ''ABCDEFGHIJKLMNOPQRSTUVWXYZ'' ''abcdefghijklmnopqrstuvwxyz'') c of
        Some d \<Rightarrow> d
      | None \<Rightarrow> c)"

definition toLowerCase :: "env \<Rightarrow> string \<Rightarrow> string" where
  "toLowerCase E s = (if list_all is_ascii s then map lower_char s else unicodeLowerCase E s)"

text \<open>\<^verbatim>\<open>error?.message?.includes('429') || error?.message?.includes('quota')\<close>\<close>

definition isQuota :: "thrown \<Rightarrow> bool" where
  "isQuota e =
     (case e of
        Nullish \<Rightarrow> False
      | ErrorObj r \<Rightarrow>
          (case message r of
             None \<Rightarrow> False
           | Some m \<Rightarrow> str_includes m ''429'' \<or> str_includes m ''quota''))"

section \<open>App: the lead store and the campaign statistics\<close>

text \<open>
  \<^verbatim>\<open>
  const handleAddLeads = (newLeads: Lead[]) => {
    setLeads(prev => [...prev, ...newLeads]);
    notify(`${newLeads.length} leads added to database!`, 'success');
    setView(AppView.LEADS);
  };
  \<close>
\<close>

definition handleAddLeads :: "lead list \<Rightarrow> ui_state \<Rightarrow> ui_state" where
  "handleAddLeads newLeads s =
     s\<lparr>leads := leads s @ newLeads,
       toasts := toasts s @ [LeadsAdded (length newLeads)],
       view := LEADS\<rparr>"

text \<open>
  \<^verbatim>\<open>
  const handleSendEmails = (targetLeads: Lead[], emails: GeneratedEmail[]) => {
    setLeads(prev => prev.map(l =>
      targetLeads.some(tl => tl.id === l.id) ? { ...l, status: 'Contacted' } : l));
    setStats(prev => ({ ...prev,
      sent: prev.sent + targetLeads.length,
      dailyLimitUsed: prev.dailyLimitUsed + targetLeads.length }));
    setOutreachLeads([]);
    notify("Campaign marked as sent successfully!", 'success');
    setView(AppView.DASHBOARD);
  };
  \<close>
\<close>

definition handleSendEmails ::
  "lead list \<Rightarrow> generatedEmail option list \<Rightarrow> ui_state \<Rightarrow> ui_state" where
  "handleSendEmails targetLeads sentEmails s =
     s\<lparr>leads :=
         map (\<lambda>l. if list_ex (\<lambda>tl. lead.id tl = lead.id l) targetLeads
                  then l\<lparr>status := Contacted\<rparr> else l) (leads s),
       stats := (stats s)
         \<lparr>sent := sent (stats s) + int (length targetLeads),
          dailyLimitUsed := dailyLimitUsed (stats s) + int (length targetLeads)\<rparr>,
       outreachLeads := [],
       toasts := toasts s @ [CampaignMarkedSent],
       view := DASHBOARD\<rparr>"

section \<open>Outreach: marking leads as sent and finishing the campaign\<close>

text \<open>\<^verbatim>\<open>setSentStatus(prev => ({ ...prev, [leadId]: true }))\<close>\<close>

definition handleMarkAsSent :: "string \<Rightarrow> ui_state \<Rightarrow> ui_state" where
  "handleMarkAsSent leadId s = s\<lparr>sentStatus := AList.update leadId True (sentStatus s)\<rparr>"

text \<open>
  \<^verbatim>\<open>
  const handleFinishCampaign = () => {
    const sentLeadIds = Object.keys(sentStatus).filter(id => sentStatus[id]);
    const sentLeads = selectedLeads.filter(l => sentLeadIds.includes(l.id));
    const sentEmailsData = sentLeads.map(l => emails[l.id]);
    onSendEmails(sentLeads, sentEmailsData);
  };
  \<close>
\<close>

definition sentLeadIds :: "ui_state \<Rightarrow> string list" where
  "sentLeadIds s = filter (\<lambda>i. map_of (sentStatus s) i = Some True) (map fst (sentStatus s))"

definition sentLeads :: "ui_state \<Rightarrow> lead list" where
  "sentLeads s = filter (\<lambda>l. lead.id l \<in> set (sentLeadIds s)) (outreachLeads s)"

definition handleFinishCampaign :: "ui_state \<Rightarrow> ui_state" where
  "handleFinishCampaign s =
     handleSendEmails (sentLeads s) (map (\<lambda>l. map_of (emails s) (lead.id l)) (sentLeads s)) s"

section \<open>LeadDiscovery: searching, selecting and adding candidates\<close>

text \<open>
  \<^verbatim>\<open>
  const isDuplicate = (leadName?: string) => {
    if (!leadName) return false;
    return existingLeads.some(l => l.businessName.toLowerCase() === leadName.toLowerCase());
  };
  \<close>
\<close>

definition isDuplicate :: "env \<Rightarrow> lead list \<Rightarrow> string option \<Rightarrow> bool" where
  "isDuplicate E existingLeads leadName =
     (case leadName of
        None \<Rightarrow> False
      | Some n \<Rightarrow>
          if n = [] then False
          else list_ex (\<lambda>l. toLowerCase E (lead.businessName l) = toLowerCase E n)
                 existingLeads)"

text \<open>The \<^verbatim>\<open>onChange\<close> handlers of the form and the region buttons: \<^verbatim>\<open>setParams(p)\<close>.\<close>

definition setParams :: "searchParams \<Rightarrow> ui_state \<Rightarrow> ui_state" where
  "setParams p s = s\<lparr>params := p\<rparr>"

text \<open>
  \<^verbatim>\<open>
  const handleSearch = async (e) => {
    if (!params.industry || !params.city) return;
    setIsSearching(true); setDiscoveredLeads([]); setSelectedIndices(new Set());
    try {
      const results = await discoverLeads(params.industry, params.city, fetchCount);
      setDiscoveredLeads(results);
    } catch (error: any) {
      const isQuota = ...;
      notify(isQuota ? "Daily search quota exceeded. ..." : "Failed to discover leads.", 'error');
    } finally { setIsSearching(false); }
  };
  \<close>
\<close>

definition handleSearch :: "env \<Rightarrow> ui_state \<Rightarrow> ui_state" where
  "handleSearch E s =
     (if searchParams.industry (params s) = [] \<or> searchParams.city (params s) = [] then s
      else
        (case discoverLeads_call E (searchParams.industry (params s))
                (searchParams.city (params s)) (fetchCount s) of
           Inr results \<Rightarrow>
             s\<lparr>discoveredLeads := results, selectedIndices := [], isSearching := False\<rparr>
         | Inl error \<Rightarrow>
             s\<lparr>discoveredLeads := [], selectedIndices := [], isSearching := False,
               toasts := toasts s @ [if isQuota error then SearchQuotaExceeded else DiscoverFailed]\<rparr>))"

text \<open>
  The object literal built by \<^verbatim>\<open>handleAddLead\<close> and by \<^verbatim>\<open>handleBulkAdd\<close>:
  \<^verbatim>\<open>
  { id: crypto.randomUUID(),
    businessName: rawLead.businessName || 'Unknown',
    industry: rawLead.industry || params.industry,
    city: rawLead.city || params.city,
    website: rawLead.website || 'Not listed',
    phoneNumber: rawLead.phoneNumber || 'Not listed',
    rationale: rawLead.rationale,
    priorityScore: qualification.score,
    priorityReason: qualification.reason,
    status: 'New',
    addedAt: new Date().toISOString() }
  \<close>
\<close>

definition makeLead ::
  "string \<Rightarrow> string \<Rightarrow> searchParams \<Rightarrow> candidate \<Rightarrow> qualification \<Rightarrow> lead" where
  "makeLead uuid now p rawLead q =
     \<lparr>lead.id = uuid,
      businessName = or_else (candidate.businessName rawLead) ''Unknown'',
      industry = or_else (candidate.industry rawLead) (searchParams.industry p),
      city = or_else (candidate.city rawLead) (searchParams.city p),
      website = or_else (candidate.website rawLead) ''Not listed'',
      phoneNumber = Some (or_else (candidate.phoneNumber rawLead) ''Not listed''),
      email = None,
      rationale = candidate.rationale rawLead,
      priorityScore = Some (score q),
      priorityReason = Some (reason q),
      status = New,
      addedAt = now\<rparr>"

text \<open>\<^verbatim>\<open>prev.filter((_, i) => keep(i))\<close>\<close>

definition filter_index :: "(nat \<Rightarrow> bool) \<Rightarrow> 'a list \<Rightarrow> 'a list" where
  "filter_index keep xs = map snd (filter (\<lambda>(i, x). keep i) (enumerate 0 xs))"

text \<open>
  \<^verbatim>\<open>
  const handleAddLead = async (index: number) => {
    const rawLead = discoveredLeads[index];
    if (!rawLead) return;
    setIsQualifying(rawLead.businessName || 'Lead');
    try {
      const qualification = await qualifyLead(rawLead);
      const newLead: Lead = { ... };
      onAddLeads([newLead]);
      setDiscoveredLeads(prev => prev.filter((_, i) => i !== index));
      setSelectedIndices(new Set());
    } catch (error: any) {
      const isQuota = ...;
      notify(isQuota ? "Qualification quota hit. Retrying..." : "Failed to qualify lead", 'error');
    } finally { setIsQualifying(null); }
  };
  \<close>
\<close>

definition handleAddLead :: "env \<Rightarrow> nat \<Rightarrow> ui_state \<Rightarrow> ui_state" where
  "handleAddLead E index s =
     (case at_index (discoveredLeads s) index of
        None \<Rightarrow> s
      | Some rawLead \<Rightarrow>
          (case qualifyLead E 0 rawLead of
             Inr qualification \<Rightarrow>
               (handleAddLeads
                  [makeLead (randomUUID E 0) (nowISO E 0) (params s) rawLead qualification] s)
                 \<lparr>discoveredLeads := filter_index (\<lambda>i. i \<noteq> index) (discoveredLeads s),
                  selectedIndices := [],
                  isQualifying := None\<rparr>
           | Inl error \<Rightarrow>
               s\<lparr>toasts := toasts s @ [if isQuota error then QualificationQuotaHit else QualifyFailed],
                 isQualifying := None\<rparr>))"

text \<open>
  What the loop of \<^verbatim>\<open>handleBulkAdd\<close> does besides building \<^verbatim>\<open>validLeads\<close>, in order: a
  call of \<^verbatim>\<open>qualifyLead\<close> for the candidate at an index (awaited before anything else
  happens), a timeout of so many milliseconds (awaited as well), a \<^verbatim>\<open>console.error\<close> for a
  skipped candidate.
\<close>

datatype effect =
    QualifyCall nat
  | Pause nat
  | SkipLogged "string option"

text \<open>
  \<^verbatim>\<open>
  for (const idx of indices) {
    const rawLead = discoveredLeads[idx];
    if (!rawLead) continue;
    try {
      const qualification = await qualifyLead(rawLead);
      validLeads.push({ ... });
      await new Promise(r => setTimeout(r, 200));
    } catch (e) {
      console.error("Skipping lead due to error", rawLead.businessName);
    }
  }
  \<close>
  \<open>n\<close> counts the calls of \<^verbatim>\<open>qualifyLead\<close> made so far. The number of identifiers and
  timestamps drawn so far is the length of \<open>validLeads\<close>.
\<close>

fun bulk_loop ::
  "env \<Rightarrow> ui_state \<Rightarrow> nat list \<Rightarrow> nat \<Rightarrow> lead list \<Rightarrow> effect list \<Rightarrow> lead list \<times> effect list"
where
  "bulk_loop E s [] n validLeads tr = (validLeads, tr)"
| "bulk_loop E s (idx # indices) n validLeads tr =
     (case at_index (discoveredLeads s) idx of
        None \<Rightarrow> bulk_loop E s indices n validLeads tr
      | Some rawLead \<Rightarrow>
          (case qualifyLead E n rawLead of
             Inr qualification \<Rightarrow>
               bulk_loop E s indices (Suc n)
                 (validLeads @
                    [makeLead (randomUUID E (length validLeads)) (nowISO E (length validLeads))
                       (params s) rawLead qualification])
                 (tr @ [QualifyCall idx, Pause 200])
           | Inl e \<Rightarrow>
               bulk_loop E s indices (Suc n) validLeads
                 (tr @ [QualifyCall idx, SkipLogged (candidate.businessName rawLead)])))"

text \<open>
  \<^verbatim>\<open>
  const handleBulkAdd = async () => {
    if (selectedIndices.size === 0) return;
    setIsBulkAdding(true);
    const validLeads: Lead[] = [];
    const indices = Array.from(selectedIndices);
    try {
      for (const idx of indices) { ... }
      if (validLeads.length > 0) {
        onAddLeads(validLeads);
        setDiscoveredLeads(prev => prev.filter((_, i) => !selectedIndices.has(i)));
        setSelectedIndices(new Set());
      }
    } finally { setIsBulkAdding(false); }
  };
  \<close>
  The result is the state after the handler and the effects of its loop.
\<close>

definition handleBulkAdd :: "env \<Rightarrow> ui_state \<Rightarrow> ui_state \<times> effect list" where
  "handleBulkAdd E s =
     (if selectedIndices s = [] then (s, [])
      else
        (case bulk_loop E s (selectedIndices s) 0 [] [] of
           (validLeads, tr) \<Rightarrow>
             (if validLeads \<noteq> [] then
                ((handleAddLeads validLeads s)
                   \<lparr>discoveredLeads :=
                      filter_index (\<lambda>i. \<not> set_has (selectedIndices s) i) (discoveredLeads s),
                    selectedIndices := [],
                    isBulkAdding := False\<rparr>, tr)
              else (s\<lparr>isBulkAdding := False\<rparr>, tr))))"

text \<open>
  \<^verbatim>\<open>
  const toggleSelection = (index: number) => {
    if (isDuplicate(discoveredLeads[index].businessName)) return;
    const newSet = new Set(selectedIndices);
    if (newSet.has(index)) newSet.delete(index);
    else newSet.add(index);
    setSelectedIndices(newSet);
  };
  \<close>
  Reading \<^verbatim>\<open>.businessName\<close> of \<^verbatim>\<open>undefined\<close> throws a \<^verbatim>\<open>TypeError\<close>.
\<close>

definition typeError :: thrown where
  "typeError =
     ErrorObj \<lparr>message = Some ''Cannot read properties of undefined'', status = None\<rparr>"

definition toggleSelection :: "env \<Rightarrow> nat \<Rightarrow> ui_state \<Rightarrow> thrown + ui_state" where
  "toggleSelection E index s =
     (case at_index (discoveredLeads s) index of
        None \<Rightarrow> Inl typeError
      | Some c \<Rightarrow>
          if isDuplicate E (leads s) (candidate.businessName c) then Inr s
          else if set_has (selectedIndices s) index
            then Inr (s\<lparr>selectedIndices := set_delete (selectedIndices s) index\<rparr>)
            else Inr (s\<lparr>selectedIndices := set_add (selectedIndices s) index\<rparr>))"

text \<open>
  \<^verbatim>\<open>
  const toggleSelectAll = () => {
    const availableIndices = discoveredLeads
        .map((l, i) => ({ lead: l, index: i }))
        .filter(item => !isDuplicate(item.lead.businessName))
        .map(item => item.index);
    if (selectedIndices.size === availableIndices.length) setSelectedIndices(new Set());
    else setSelectedIndices(new Set(availableIndices));
  };
  \<close>
\<close>

definition availableIndices :: "env \<Rightarrow> ui_state \<Rightarrow> nat list" where
  "availableIndices E s =
     map fst (filter (\<lambda>(i, l). \<not> isDuplicate E (leads s) (candidate.businessName l))
        (enumerate 0 (discoveredLeads s)))"

definition toggleSelectAll :: "env \<Rightarrow> ui_state \<Rightarrow> ui_state" where
  "toggleSelectAll E s =
     (if length (selectedIndices s) = length (availableIndices E s)
      then s\<lparr>selectedIndices := []\<rparr>
      else s\<lparr>selectedIndices := set_from_array (availableIndices E s)\<rparr>)"

subsection \<open>The bulk loop in closed form\<close>

text \<open>
  The selected indices that hold a candidate, in the order in which the selection
  yields them: the loop skips the others without a call.
\<close>

definition attempted :: "ui_state \<Rightarrow> nat list \<Rightarrow> nat list" where
  "attempted s indices = filter (\<lambda>i. i < length (discoveredLeads s)) indices"

text \<open>
  Each attempted index with the outcome of its call of \<^verbatim>\<open>qualifyLead\<close>; the calls are
  numbered from \<open>n\<close> in the order of the attempts.
\<close>

definition outcomes ::
  "env \<Rightarrow> ui_state \<Rightarrow> nat \<Rightarrow> nat list \<Rightarrow> (nat \<times> (thrown + qualification)) list" where
  "outcomes E s n indices =
     map (\<lambda>(k, i). (i, qualifyLead E k (discoveredLeads s ! i)))
       (enumerate n (attempted s indices))"

text \<open>The attempts that succeeded, in the same order, each with its qualification.\<close>

definition successes ::
  "(nat \<times> (thrown + qualification)) list \<Rightarrow> (nat \<times> qualification) list" where
  "successes oc =
     List.map_filter (\<lambda>(i, r). case r of Inr q \<Rightarrow> Some (i, q) | Inl e \<Rightarrow> None) oc"

text \<open>
  The leads built from the successful attempts, in the same order; identifiers and
  timestamps are numbered from \<open>j\<close>.
\<close>

definition batch ::
  "env \<Rightarrow> ui_state \<Rightarrow> nat \<Rightarrow> (nat \<times> qualification) list \<Rightarrow> lead list" where
  "batch E s j ok =
     map (\<lambda>(m, (i, q)).
            makeLead (randomUUID E m) (nowISO E m) (params s) (discoveredLeads s ! i) q)
       (enumerate j ok)"

text \<open>The effects of the attempts: the call, then the pause or the log entry.\<close>

definition effects_of :: "ui_state \<Rightarrow> (nat \<times> (thrown + qualification)) list \<Rightarrow> effect list" where
  "effects_of s oc =
     concat (map (\<lambda>(i, r).
        [QualifyCall i,
         case r of
           Inr q \<Rightarrow> Pause 200
         | Inl e \<Rightarrow> SkipLogged (candidate.businessName (discoveredLeads s ! i))]) oc)"

text \<open>The indices of the calls in a list of effects, in order.\<close>

definition calls_of :: "effect list \<Rightarrow> nat list" where
  "calls_of tr = List.map_filter (\<lambda>e. case e of QualifyCall i \<Rightarrow> Some i | _ \<Rightarrow> None) tr"

section \<open>The discovery client\<close>

subsection \<open>The regular expression\<close>

text \<open>
  \<^verbatim>\<open>text.match(/\[[\s\S]*\]/)\<close>: the match starts at the leftmost \<open>[\<close> from which it can
  succeed; \<^verbatim>\<open>[\s\S]*\<close> is greedy and matches any character, so the match runs up to the
  last \<open>]\<close> that follows. \<open>upto_last_bracket cs\<close> is the longest prefix of \<open>cs\<close> that ends
  in \<open>]\<close>.
\<close>

definition upto_last_bracket :: "string \<Rightarrow> string option" where
  "upto_last_bracket cs =
     (let r = dropWhile (\<lambda>c. c \<noteq> CHR '']'') (rev cs)
      in if r = [] then None else Some (rev r))"

fun match_array :: "string \<Rightarrow> string option" where
  "match_array [] = None"
| "match_array (c # cs) =
     (if c = CHR ''['' then
        (case upto_last_bracket cs of
           Some m \<Rightarrow> Some (c # m)
         | None \<Rightarrow> match_array cs)
      else match_array cs)"

subsection \<open>\<^verbatim>\<open>JSON.parse\<close>\<close>

text \<open>
  \<^verbatim>\<open>JSON.parse\<close> is a built-in of the JavaScript runtime; it is modelled after the JSON
  grammar (ECMA-404): a lexer, then a parser that keeps a stack of the arrays and objects
  still open. A number is kept as its lexeme. A string is kept as the bytes of its UTF-8
  encoding, with the escapes decoded: \<^verbatim>\<open>\uXXXX\<close> is the code point \<open>XXXX\<close>, and a high
  surrogate escape followed by a low surrogate escape is the one code point of the pair
  (a surrogate without its partner is encoded like any other code unit). An object is
  the list of its members in source order; reading a property takes the last member of
  that name.
\<close>

datatype json =
    JNull
  | JBool bool
  | JNumber string
  | JString string
  | JArray "json list"
  | JObject "(string \<times> json) list"

datatype token =
    TLBracket | TRBracket | TLBrace | TRBrace | TComma | TColon
  | TString string | TNumber string | TTrue | TFalse | TNull

definition is_ws :: "char \<Rightarrow> bool" where
  "is_ws c = (c \<in> set [CHR 0x20, CHR 0x09, CHR 0x0A, CHR 0x0D])"

definition is_digit :: "char \<Rightarrow> bool" where
  "is_digit c = (c \<in> set ''0123456789'')"

definition hex_val :: "char \<Rightarrow> nat option" where
  "hex_val c =
     map_of (zip ''0123456789abcdefABCDEF''
        [0, 1, 2, 3, 4, 5, 6, 7, 8, 9, 10, 11, 12, 13, 14, 15, 10, 11, 12, 13, 14, 15]) c"

text \<open>The value of exactly four hexadecimal digits.\<close>

definition hex4 :: "string \<Rightarrow> nat option" where
  "hex4 hs =
     (case map hex_val hs of
        [Some a, Some b, Some c, Some d] \<Rightarrow> Some (((a * 16 + b) * 16 + c) * 16 + d)
      | _ \<Rightarrow> None)"

definition utf8 :: "nat \<Rightarrow> string" where
  "utf8 u =
     (if u < 0x80 then [char_of u]
      else if u < 0x800 then [char_of (0xC0 + u div 64), char_of (0x80 + u mod 64)]
      else if u < 0x10000 then
        [char_of (0xE0 + u div 4096), char_of (0x80 + u div 64 mod 64),
         char_of (0x80 + u mod 64)]
      else
        [char_of (0xF0 + u div 262144), char_of (0x80 + u div 4096 mod 64),
         char_of (0x80 + u div 64 mod 64), char_of (0x80 + u mod 64)])"

text \<open>Surrogates, and the code point of a pair.\<close>

definition is_high :: "nat \<Rightarrow> bool" where
  "is_high u = (0xD800 \<le> u \<and> u < 0xDC00)"

definition is_low :: "nat \<Rightarrow> bool" where
  "is_low u = (0xDC00 \<le> u \<and> u < 0xE000)"

definition pair_point :: "nat \<Rightarrow> nat \<Rightarrow> nat" where
  "pair_point hi lo = 0x10000 + (hi - 0xD800) * 0x400 + (lo - 0xDC00)"

text \<open>The low surrogate that the text starts with as a \<^verbatim>\<open>\uXXXX\<close> escape, if it does.\<close>

definition low_escape :: "string \<Rightarrow> nat option" where
  "low_escape cs =
     (if take 2 cs = [CHR 0x5C, CHR ''u''] then
        (case hex4 (take 4 (drop 2 cs)) of
           None \<Rightarrow> None
         | Some lo \<Rightarrow> if is_low lo then Some lo else None)
      else None)"

text \<open>The character after a backslash, other than \<open>u\<close>.\<close>

definition unescape :: "char \<Rightarrow> char option" where
  "unescape e =
     map_of [(CHR 0x22, CHR 0x22), (CHR 0x5C, CHR 0x5C), (CHR ''/'', CHR ''/''),
             (CHR ''b'', CHR 0x08), (CHR ''f'', CHR 0x0C), (CHR ''n'', CHR 0x0A),
             (CHR ''r'', CHR 0x0D), (CHR ''t'', CHR 0x09)] e"

text \<open>
  The rest of a string literal, after its opening quote: the decoded characters and the
  number of source characters up to and including the closing quote. Control characters
  must be escaped.
\<close>

fun scan_string :: "string \<Rightarrow> (string \<times> nat) option" where
  "scan_string [] = None"
| "scan_string (c # cs) =
     (if c = CHR 0x22 then Some ([], 1)
      else if c = CHR 0x5C then
        (case cs of
           [] \<Rightarrow> None
         | e # cs' \<Rightarrow>
             if e = CHR ''u'' then
               (case hex4 (take 4 cs') of
                  None \<Rightarrow> None
                | Some u \<Rightarrow>
                    (case (if is_high u then low_escape (drop 4 cs') else None) of
                       Some lo \<Rightarrow>
                         map_option (\<lambda>(s, n). (utf8 (pair_point u lo) @ s, n + 12))
                           (scan_string (drop 10 cs'))
                     | None \<Rightarrow>
                         map_option (\<lambda>(s, n). (utf8 u @ s, n + 6))
                           (scan_string (drop 4 cs'))))
             else
               (case unescape e of
                  None \<Rightarrow> None
                | Some d \<Rightarrow> map_option (\<lambda>(s, n). (d # s, n + 2)) (scan_string cs')))
      else if (of_char c :: nat) < 0x20 then None
      else map_option (\<lambda>(s, n). (c # s, n + 1)) (scan_string cs))"

text \<open>
  The length of the number literal at the start of the text:
  \<^verbatim>\<open>-? (0 | [1-9][0-9]*) (. [0-9]+)? ([eE] [+-]? [0-9]+)?\<close>
\<close>

definition digits :: "string \<Rightarrow> nat" where
  "digits cs = length (takeWhile is_digit cs)"

definition scan_fraction :: "string \<Rightarrow> nat option" where
  "scan_fraction cs =
     (case cs of
        [] \<Rightarrow> Some 0
      | c # r \<Rightarrow>
          if c = CHR ''.'' then (if digits r = 0 then None else Some (1 + digits r))
          else Some 0)"

definition scan_exponent :: "string \<Rightarrow> nat option" where
  "scan_exponent cs =
     (case cs of
        [] \<Rightarrow> Some 0
      | c # r \<Rightarrow>
          if c = CHR ''e'' \<or> c = CHR ''E'' then
            (let sg = (case r of [] \<Rightarrow> 0 | x # _ \<Rightarrow> if x = CHR ''+'' \<or> x = CHR ''-'' then 1 else 0)
             in if digits (drop sg r) = 0 then None else Some (1 + sg + digits (drop sg r)))
          else Some 0)"

definition scan_number :: "string \<Rightarrow> nat option" where
  "scan_number cs =
     (let sg = (case cs of [] \<Rightarrow> 0 | x # _ \<Rightarrow> if x = CHR ''-'' then 1 else 0);
          r0 = drop sg cs;
          d = digits r0
      in if d = 0 then None
         else if 1 < d \<and> hd r0 = CHR ''0'' then None
         else
           (case scan_fraction (drop d r0) of
              None \<Rightarrow> None
            | Some f \<Rightarrow>
                (case scan_exponent (drop (d + f) r0) of
                   None \<Rightarrow> None
                 | Some e \<Rightarrow> Some (sg + d + f + e))))"

fun tokenize :: "string \<Rightarrow> token list option" where
  "tokenize [] = Some []"
| "tokenize (c # cs) =
     (if is_ws c then tokenize cs
      else if c = CHR ''['' then map_option (Cons TLBracket) (tokenize cs)
      else if c = CHR '']'' then map_option (Cons TRBracket) (tokenize cs)
      else if c = CHR ''{'' then map_option (Cons TLBrace) (tokenize cs)
      else if c = CHR ''}'' then map_option (Cons TRBrace) (tokenize cs)
      else if c = CHR '','' then map_option (Cons TComma) (tokenize cs)
      else if c = CHR '':'' then map_option (Cons TColon) (tokenize cs)
      else if c = CHR 0x22 then
        (case scan_string cs of
           None \<Rightarrow> None
         | Some (s, n) \<Rightarrow> map_option (Cons (TString s)) (tokenize (drop n cs)))
      else if c = CHR ''-'' \<or> is_digit c then
        (case scan_number (c # cs) of
           None \<Rightarrow> None
         | Some n \<Rightarrow>
             map_option (Cons (TNumber (take n (c # cs)))) (tokenize (drop (n - 1) cs)))
      else if prefix ''true'' (c # cs) then map_option (Cons TTrue) (tokenize (drop 3 cs))
      else if prefix ''false'' (c # cs) then map_option (Cons TFalse) (tokenize (drop 4 cs))
      else if prefix ''null'' (c # cs) then map_option (Cons TNull) (tokenize (drop 3 cs))
      else None)"

text \<open>
  The parser state: the containers still open, innermost first, and what may come next.
  An open object carries the key that waits for its value.
\<close>

datatype frame =
    InArray "json list"
  | InObject "(string \<times> json) list" "string option"

datatype expect =
    EValue | EValueOrClose | ECommaOrClose | EKeyOrClose | EKey | EColon

datatype pstate =
    Run "frame list" expect
  | Done json

text \<open>A complete value goes into the innermost open container, or is the result.\<close>

fun deliver :: "json \<Rightarrow> frame list \<Rightarrow> pstate option" where
  "deliver v [] = Some (Done v)"
| "deliver v (InArray xs # st) = Some (Run (InArray (xs @ [v]) # st) ECommaOrClose)"
| "deliver v (InObject ms (Some k) # st) =
     Some (Run (InObject (ms @ [(k, v)]) None # st) ECommaOrClose)"
| "deliver v (InObject ms None # st) = None"

fun atom :: "token \<Rightarrow> json option" where
  "atom (TString s) = Some (JString s)"
| "atom (TNumber n) = Some (JNumber n)"
| "atom TTrue = Some (JBool True)"
| "atom TFalse = Some (JBool False)"
| "atom TNull = Some JNull"
| "atom _ = None"

definition start_value :: "frame list \<Rightarrow> token \<Rightarrow> pstate option" where
  "start_value st t =
     (if t = TLBracket then Some (Run (InArray [] # st) EValueOrClose)
      else if t = TLBrace then Some (Run (InObject [] None # st) EKeyOrClose)
      else (case atom t of None \<Rightarrow> None | Some v \<Rightarrow> deliver v st))"

definition close_array :: "frame list \<Rightarrow> pstate option" where
  "close_array st = (case st of InArray xs # st' \<Rightarrow> deliver (JArray xs) st' | _ \<Rightarrow> None)"

definition close_object :: "frame list \<Rightarrow> pstate option" where
  "close_object st =
     (case st of InObject ms None # st' \<Rightarrow> deliver (JObject ms) st' | _ \<Rightarrow> None)"

definition read_key :: "frame list \<Rightarrow> token \<Rightarrow> pstate option" where
  "read_key st t =
     (case (st, t) of
        (InObject ms None # st', TString k) \<Rightarrow> Some (Run (InObject ms (Some k) # st') EColon)
      | _ \<Rightarrow> None)"

fun step :: "pstate \<Rightarrow> token \<Rightarrow> pstate option" where
  "step (Done v) t = None"
| "step (Run st EValue) t = start_value st t"
| "step (Run st EValueOrClose) t = (if t = TRBracket then close_array st else start_value st t)"
| "step (Run st ECommaOrClose) t =
     (if t = TComma then
        (case st of
           InArray xs # st' \<Rightarrow> Some (Run st EValue)
         | InObject ms k # st' \<Rightarrow> Some (Run st EKey)
         | [] \<Rightarrow> None)
      else if t = TRBracket then close_array st
      else if t = TRBrace then close_object st
      else None)"
| "step (Run st EKeyOrClose) t = (if t = TRBrace then close_object st else read_key st t)"
| "step (Run st EKey) t = read_key st t"
| "step (Run st EColon) t = (if t = TColon then Some (Run st EValue) else None)"

fun steps :: "pstate \<Rightarrow> token list \<Rightarrow> pstate option" where
  "steps p [] = Some p"
| "steps p (t # ts) = (case step p t of None \<Rightarrow> None | Some p' \<Rightarrow> steps p' ts)"

text \<open>\<open>None\<close> stands for the \<^verbatim>\<open>SyntaxError\<close> that \<^verbatim>\<open>JSON.parse\<close> throws.\<close>

definition JSON_parse :: "string \<Rightarrow> json option" where
  "JSON_parse s =
     (case tokenize s of
        None \<Rightarrow> None
      | Some ts \<Rightarrow>
          (case steps (Run [] EValue) ts of
             Some (Done v) \<Rightarrow> Some v
           | _ \<Rightarrow> None))"

text \<open>Reading the property \<open>k\<close> of a parsed value: \<^verbatim>\<open>undefined\<close> when there is none.\<close>

definition property :: "string \<Rightarrow> json \<Rightarrow> json option" where
  "property k v = (case v of JObject ms \<Rightarrow> map_of (rev ms) k | _ \<Rightarrow> None)"

subsection \<open>\<^verbatim>\<open>discoverLeads\<close>\<close>

text \<open>
  The \<^verbatim>\<open>SyntaxError\<close> that \<^verbatim>\<open>JSON.parse\<close> throws depends on the engine and on the text (its
  message may quote the text): \<open>parseError t\<close> is the value thrown for the text \<open>t\<close>.
\<close>

text \<open>
  What the wrapped function does with the response of the generation call:
  \<^verbatim>\<open>
  const text = response.text || '';
  const jsonMatch = text.match(/\[[\s\S]*\]/);
  if (jsonMatch) {
    return JSON.parse(jsonMatch[0]);
  } else {
    console.warn("Could not parse JSON from discovery response", text);
    return [];
  }
  \<close>
\<close>

definition parse_discovery :: "(string \<Rightarrow> thrown) \<Rightarrow> string option \<Rightarrow> thrown + json" where
  "parse_discovery parseError response_text =
     (let text = (case response_text of None \<Rightarrow> [] | Some t \<Rightarrow> t)
      in case match_array text of
           Some jsonMatch \<Rightarrow>
             (case JSON_parse jsonMatch of
                Some v \<Rightarrow> Inr v
              | None \<Rightarrow> Inl (parseError jsonMatch))
         | None \<Rightarrow> Inr (JArray []))"

text \<open>
  \<^verbatim>\<open>discoverLeads = async (industry, city, count = 5) => withRetry(async () => { ... })\<close>.
  \<open>generateContent i\<close> is the outcome of the \<open>i\<close>-th call (0-based) of
  \<^verbatim>\<open>ai.models.generateContent\<close> with the prompt built from the arguments: an error thrown,
  or the \<^verbatim>\<open>text\<close> of the response (which may be absent).
\<close>

definition discoverLeads ::
  "(string \<Rightarrow> thrown) \<Rightarrow> (nat \<Rightarrow> thrown + string option) \<Rightarrow> (nat \<Rightarrow> real) \<Rightarrow> json run"
where
  "discoverLeads parseError generateContent random =
     withRetry
       (\<lambda>i. case generateContent i of
               Inl e \<Rightarrow> Inl e
             | Inr response_text \<Rightarrow> parse_discovery parseError response_text)
       defaultMaxRetries random"

subsection \<open>Notions used in the statements\<close>

text \<open>A property of a candidate is missing when it is absent or the empty string.\<close>

definition missing :: "string option \<Rightarrow> bool" where
  "missing x = (x = None \<or> x = Some [])"

text \<open>A lead identifier is marked sent when \<^verbatim>\<open>sentStatus[id]\<close> is \<^verbatim>\<open>true\<close>.\<close>

definition markedSent :: "ui_state \<Rightarrow> string \<Rightarrow> bool" where
  "markedSent s i = (map_of (sentStatus s) i = Some True)"

text \<open>
  Two ASCII characters are the same letter when they are equal or one is a capital
  letter (code 65 to 90) and the other the small letter of it (its code plus 32).
\<close>

definition is_upper :: "char \<Rightarrow> bool" where
  "is_upper c = (65 \<le> (of_char c :: nat) \<and> (of_char c :: nat) \<le> 90)"

definition same_letter :: "char \<Rightarrow> char \<Rightarrow> bool" where
  "same_letter a b =
     (a = b \<or> (is_upper a \<and> (of_char b :: nat) = of_char a + 32) \<or>
      (is_upper b \<and> (of_char a :: nat) = of_char b + 32))"

text \<open>
  Every lead of the store has a business name: the two handlers that create leads put
  \<^verbatim>\<open>'Unknown'\<close> where the candidate has none.
\<close>

definition named_store :: "lead list \<Rightarrow> bool" where
  "named_store ls = list_all (\<lambda>l. lead.businessName l \<noteq> []) ls"

text \<open>
  A parser state is rooted in an array when the outermost open container is an array,
  or the finished value is one.
\<close>

fun is_array :: "json \<Rightarrow> bool" where
  "is_array (JArray xs) = True"
| "is_array _ = False"

fun is_array_frame :: "frame \<Rightarrow> bool" where
  "is_array_frame (InArray xs) = True"
| "is_array_frame _ = False"

fun rooted_in_array :: "pstate \<Rightarrow> bool" where
  "rooted_in_array (Run st ex) = (st \<noteq> [] \<and> is_array_frame (last st))"
| "rooted_in_array (Done v) = is_array v"

subsection \<open>The JSON grammar\<close>

text \<open>
  The grammar of ECMA-404, against which the model of \<^verbatim>\<open>JSON.parse\<close> is checked. The
  tokens of a value: an array is its elements between brackets, an object its members
  (name, colon, value) between braces, both separated by commas.
\<close>

fun separated :: "token list list \<Rightarrow> token list" where
  "separated [] = []"
| "separated [ts] = ts"
| "separated (ts # us # rest) = ts @ TComma # separated (us # rest)"

fun toks :: "json \<Rightarrow> token list" where
  "toks JNull = [TNull]"
| "toks (JBool b) = [if b then TTrue else TFalse]"
| "toks (JNumber n) = [TNumber n]"
| "toks (JString s) = [TString s]"
| "toks (JArray xs) = TLBracket # separated (map toks xs) @ [TRBracket]"
| "toks (JObject ms) =
     TLBrace # separated (map (\<lambda>(k, v). TString k # TColon # toks v) ms) @ [TRBrace]"

definition member_toks :: "string \<times> json \<Rightarrow> token list" where
  "member_toks = (\<lambda>(k, v). TString k # TColon # toks v)"

text \<open>Going on from the state reached, if one was reached.\<close>

definition continue_with :: "pstate option \<Rightarrow> token list \<Rightarrow> pstate option" where
  "continue_with p ts = (case p of None \<Rightarrow> None | Some q \<Rightarrow> steps q ts)"

text \<open>
  The parser reads a value when, wherever a value may start, it consumes the tokens of
  the value and delivers the value.
\<close>

definition reads :: "json \<Rightarrow> bool" where
  "reads v = (\<forall>st ex rest. ex = EValue \<or> ex = EValueOrClose \<longrightarrow>
     steps (Run st ex) (toks v @ rest) = continue_with (deliver v st) rest)"

text \<open>
  The characters between the quotes of a string literal, and the string they spell:
  characters that stand for themselves, the two-character escapes, and \<^verbatim>\<open>\uXXXX\<close> escapes,
  alone or as a surrogate pair.
\<close>

inductive spells :: "string \<Rightarrow> string \<Rightarrow> bool" where
  spells_end: "spells [] []"
| spells_plain:
    "c \<noteq> CHR 0x22 \<Longrightarrow> c \<noteq> CHR 0x5C \<Longrightarrow> \<not> (of_char c :: nat) < 0x20 \<Longrightarrow> spells src d \<Longrightarrow>
     spells (c # src) (c # d)"
| spells_escape:
    "unescape e = Some x \<Longrightarrow> spells src d \<Longrightarrow> spells (CHR 0x5C # e # src) (x # d)"
| spells_unicode:
    "length hs = 4 \<Longrightarrow> hex4 hs = Some u \<Longrightarrow> \<not> (is_high u \<and> low_escape src \<noteq> None) \<Longrightarrow>
     spells src d \<Longrightarrow>
     spells (CHR 0x5C # CHR ''u'' # hs @ src) (utf8 u @ d)"
| spells_pair:
    "length hs = 4 \<Longrightarrow> hex4 hs = Some hi \<Longrightarrow> is_high hi \<Longrightarrow>
     length ls = 4 \<Longrightarrow> hex4 ls = Some lo \<Longrightarrow> is_low lo \<Longrightarrow> spells src d \<Longrightarrow>
     spells (CHR 0x5C # CHR ''u'' # hs @ CHR 0x5C # CHR ''u'' # ls @ src)
       (utf8 (pair_point hi lo) @ d)"

text \<open>
  A number literal: an optional minus, an integer part without a leading zero, an
  optional fraction, an optional exponent.
\<close>

definition int_part :: "string \<Rightarrow> bool" where
  "int_part ip = (ip = ''0'' \<or> (ip \<noteq> [] \<and> list_all is_digit ip \<and> hd ip \<noteq> CHR ''0''))"

definition frac_part :: "string \<Rightarrow> bool" where
  "frac_part fp = (fp = [] \<or> (\<exists>ds. fp = CHR ''.'' # ds \<and> ds \<noteq> [] \<and> list_all is_digit ds))"

definition exp_part :: "string \<Rightarrow> bool" where
  "exp_part ep =
     (ep = [] \<or>
      (\<exists>e sg ds. ep = e # sg @ ds \<and> (e = CHR ''e'' \<or> e = CHR ''E'') \<and>
         (sg = [] \<or> sg = ''+'' \<or> sg = ''-'') \<and> ds \<noteq> [] \<and> list_all is_digit ds))"

definition number_lexeme :: "string \<Rightarrow> bool" where
  "number_lexeme n =
     (\<exists>sg ip fp ep. n = sg @ ip @ fp @ ep \<and> (sg = [] \<or> sg = ''-'') \<and>
        int_part ip \<and> frac_part fp \<and> exp_part ep)"

text \<open>A number literal ends where the text ends or a character follows that cannot extend it.\<close>

definition ends_number :: "string \<Rightarrow> bool" where
  "ends_number r =
     (r = [] \<or> \<not> (is_digit (hd r) \<or> hd r = CHR ''.'' \<or> hd r = CHR ''e'' \<or> hd r = CHR ''E''))"

text \<open>A text and the tokens it consists of, with any white space before each of them.\<close>

inductive lexes :: "string \<Rightarrow> token list \<Rightarrow> bool" where
  lexes_end: "lexes [] []"
| lexes_ws: "is_ws c \<Longrightarrow> lexes r ts \<Longrightarrow> lexes (c # r) ts"
| lexes_lbracket: "lexes r ts \<Longrightarrow> lexes (CHR ''['' # r) (TLBracket # ts)"
| lexes_rbracket: "lexes r ts \<Longrightarrow> lexes (CHR '']'' # r) (TRBracket # ts)"
| lexes_lbrace: "lexes r ts \<Longrightarrow> lexes (CHR ''{'' # r) (TLBrace # ts)"
| lexes_rbrace: "lexes r ts \<Longrightarrow> lexes (CHR ''}'' # r) (TRBrace # ts)"
| lexes_comma: "lexes r ts \<Longrightarrow> lexes (CHR '','' # r) (TComma # ts)"
| lexes_colon: "lexes r ts \<Longrightarrow> lexes (CHR '':'' # r) (TColon # ts)"
| lexes_string:
    "spells src d \<Longrightarrow> lexes r ts \<Longrightarrow> lexes (CHR 0x22 # src @ CHR 0x22 # r) (TString d # ts)"
| lexes_number:
    "number_lexeme n \<Longrightarrow> ends_number r \<Longrightarrow> lexes r ts \<Longrightarrow> lexes (n @ r) (TNumber n # ts)"
| lexes_true: "lexes r ts \<Longrightarrow> lexes (''true'' @ r) (TTrue # ts)"
| lexes_false: "lexes r ts \<Longrightarrow> lexes (''false'' @ r) (TFalse # ts)"
| lexes_null: "lexes r ts \<Longrightarrow> lexes (''null'' @ r) (TNull # ts)"

text \<open>A text is a JSON text of a value when it consists of the tokens of the value.\<close>

definition json_text :: "string \<Rightarrow> json \<Rightarrow> bool" where
  "json_text t v = lexes t (toks v)"

text \<open>
  The usual spelling of a token, for a string without characters that need an escape,
  and the text made of given tokens, each after given white space.
\<close>

definition plain_char :: "char \<Rightarrow> bool" where
  "plain_char c = (c \<noteq> CHR 0x22 \<and> c \<noteq> CHR 0x5C \<and> \<not> (of_char c :: nat) < 0x20)"

fun spell :: "token \<Rightarrow> string" where
  "spell TLBracket = ''[''"
| "spell TRBracket = '']''"
| "spell TLBrace = ''{''"
| "spell TRBrace = ''}''"
| "spell TComma = '',''"
| "spell TColon = '':''"
| "spell (TString s) = CHR 0x22 # s @ [CHR 0x22]"
| "spell (TNumber n) = n"
| "spell TTrue = ''true''"
| "spell TFalse = ''false''"
| "spell TNull = ''null''"

fun spellable :: "token \<Rightarrow> bool" where
  "spellable (TString s) = list_all plain_char s"
| "spellable (TNumber n) = number_lexeme n"
| "spellable _ = True"

fun no_adjacent_numbers :: "token list \<Rightarrow> bool" where
  "no_adjacent_numbers (TNumber a # TNumber b # ts) = False"
| "no_adjacent_numbers (t # ts) = no_adjacent_numbers ts"
| "no_adjacent_numbers [] = True"

definition layout :: "(string \<times> token) list \<Rightarrow> string" where
  "layout wts = concat (map (\<lambda>(w, t). w @ spell t) wts)"

subsection \<open>Sample states and environments\<close>

text \<open>A candidate of which the discovery response gave the name only.\<close>

definition cand :: "string \<Rightarrow> candidate" where
  "cand n =
     \<lparr>businessName = Some n, industry = None, city = None, website = None,
      phoneNumber = None, rationale = None\<rparr>"

definition okQualification :: qualification where
  "okQualification = \<lparr>score = High, reason = ''No mobile app''\<rparr>"

text \<open>
  A sample of the runtime's lower-casing, for the ASCII letters and the capital letters
  of the Latin-1 supplement (\<open>U+00C0\<close> to \<open>U+00DE\<close> without \<open>U+00D7\<close>, in UTF-8 the byte
  \<open>C3\<close> and a byte from \<open>80\<close> to \<open>9E\<close> without \<open>97\<close>).
\<close>

fun latinLower :: "string \<Rightarrow> string" where
  "latinLower [] = []"
| "latinLower [c] = [lower_char c]"
| "latinLower (c # d # cs) =
     (if c = CHR 0xC3 \<and> 0x80 \<le> (of_char d :: nat) \<and> (of_char d :: nat) \<le> 0x9E \<and> d \<noteq> CHR 0x97
      then c # char_of ((of_char d :: nat) + 32) # latinLower cs
      else lower_char c # latinLower (d # cs))"

text \<open>
  Discovery returns the candidates \<open>A\<close>, \<open>B\<close>, \<open>C\<close>; qualifying \<open>B\<close> fails, qualifying any
  other candidate succeeds.
\<close>

definition envB :: env where
  "envB =
     \<lparr>qualifyLead = (\<lambda>n c. if candidate.businessName c = Some ''B''
                             then Inl networkError else Inr okQualification),
      discoverLeads_call = (\<lambda>i c n. Inr [cand ''A'', cand ''B'', cand ''C'']),
      randomUUID = (\<lambda>n. replicate (Suc n) CHR ''u''),
      nowISO = (\<lambda>n. ''2024-05-01T10:00:00.000Z''),
      unicodeLowerCase = latinLower\<rparr>"

text \<open>Every qualification fails.\<close>

definition envFail :: env where
  "envFail = envB\<lparr>qualifyLead := (\<lambda>n c. Inl networkError)\<rparr>"

definition cafesBerlin :: searchParams where
  "cafesBerlin = \<lparr>industry = ''Cafes'', city = ''Berlin, Germany''\<rparr>"

definition initialStats :: campaignStats where
  "initialStats = \<lparr>sent = 0, opened = 0, replied = 0, clicks = 0, dailyLimitUsed = 0\<rparr>"

text \<open>The discovery view with the search form filled in and nothing found yet.\<close>

definition finder0 :: ui_state where
  "finder0 =
     \<lparr>leads = [], stats = initialStats, view = FINDER, outreachLeads = [], toasts = [],
      params = cafesBerlin, discoveredLeads = [], fetchCount = 10, selectedIndices = [],
      isSearching = False, isQualifying = None, isBulkAdding = False,
      emails = [], sentStatus = []\<rparr>"

text \<open>After the search: \<open>A\<close>, \<open>B\<close>, \<open>C\<close> are pending.\<close>

definition finderABC :: ui_state where
  "finderABC = finder0\<lparr>discoveredLeads := [cand ''A'', cand ''B'', cand ''C'']\<rparr>"

text \<open>The selections reached by ticking the boxes of \<open>C\<close>, then \<open>B\<close>, then \<open>A\<close>.\<close>

definition finderSel :: "nat list \<Rightarrow> ui_state" where
  "finderSel sel = finderABC\<lparr>selectedIndices := sel\<rparr>"

text \<open>The region button: \<^verbatim>\<open>setParams({ industry: '', city: '' })\<close>.\<close>

definition emptyParams :: searchParams where
  "emptyParams = \<lparr>industry = [], city = []\<rparr>"

text \<open>A stored lead, by identifier and name.\<close>

definition storedLead :: "string \<Rightarrow> string \<Rightarrow> lead" where
  "storedLead i n =
     \<lparr>lead.id = i, businessName = n, industry = ''Cafes'', city = ''Berlin, Germany'',
      website = ''Not listed'', phoneNumber = Some ''Not listed'', email = None,
      rationale = None, priorityScore = Some High, priorityReason = Some ''No mobile app'',
      status = New, addedAt = ''2024-05-01T10:00:00.000Z''\<rparr>"

text \<open>The store holds \<open>acme co\<close>; discovery found \<open>Acme Co\<close> and \<open>Zeta\<close>.\<close>

definition finderAcme :: ui_state where
  "finderAcme =
     finder0\<lparr>leads := [storedLead ''id-1'' ''acme co''],
             discoveredLeads := [cand ''Acme Co'', cand ''Zeta'']\<rparr>"

text \<open>
  The store holds \<open>CAFE\<close> with an acute accent on the \<open>E\<close> (\<open>U+00C9\<close>); discovery found
  \<open>cafe\<close> with an acute accent on the \<open>e\<close> (\<open>U+00E9\<close>) and \<open>Zeta\<close>.
\<close>

definition finderCafe :: ui_state where
  "finderCafe =
     finder0\<lparr>leads := [storedLead ''id-1'' (''CAF'' @ [CHR 0xC3, CHR 0x89])],
             discoveredLeads := [cand (''caf'' @ [CHR 0xC3, CHR 0xA9]), cand ''Zeta'']\<rparr>"

text \<open>A store, written by hand, with a lead without a name; discovery found the same.\<close>

definition finderNameless :: ui_state where
  "finderNameless =
     finder0\<lparr>leads := [storedLead ''id-1'' []], discoveredLeads := [cand []]\<rparr>"

text \<open>
  An outreach session over the leads 1, 2, 3 and 4 of a store of five; the leads 1, 2
  and 4 are then marked sent.
\<close>

definition campaign0 :: ui_state where
  "campaign0 =
     finder0\<lparr>leads := [storedLead ''id-1'' ''A'', storedLead ''id-2'' ''B'',
                       storedLead ''id-3'' ''C'', storedLead ''id-4'' ''D'',
                       storedLead ''id-5'' ''E''],
             outreachLeads := [storedLead ''id-1'' ''A'', storedLead ''id-2'' ''B'',
                               storedLead ''id-3'' ''C'', storedLead ''id-4'' ''D''],
             view := OUTREACH\<rparr>"

definition campaign3 :: ui_state where
  "campaign3 =
     handleMarkAsSent ''id-4'' (handleMarkAsSent ''id-1'' (handleMarkAsSent ''id-2'' campaign0))"

subsection \<open>Sample responses of the generation call\<close>

definition sampleArray :: string where
  "sampleArray = ''[{\"businessName\":\"A\",\"city\":\"Berlin\"}]''"

text \<open>The array followed by a citation marker.\<close>

definition citedResponse :: string where
  "citedResponse = sampleArray @ '' [1]''"

text \<open>
  Two leads inside a sentence, on two lines, with brackets inside a name and an array
  inside the first lead.
\<close>

definition twoLeadsArray :: string where
  "twoLeadsArray =
     ''[ {\"businessName\": \"Cafe [Mitte]\", \"city\": \"Berlin\", \"rating\": 4.5, '' @
     ''\"tags\": [\"wifi\", \"vegan\"]},'' @ [CHR 0x0A] @
     ''  {\"businessName\": \"B\", \"website\": null} ]''"

definition twoLeadsResponse :: string where
  "twoLeadsResponse = ''Here are 2 leads: '' @ twoLeadsArray @ '' Let me know.''"

definition firstLead :: json where
  "firstLead =
     JObject [(''businessName'', JString ''Cafe [Mitte]''), (''city'', JString ''Berlin''),
              (''rating'', JNumber ''4.5''), (''tags'', JArray [JString ''wifi'', JString ''vegan''])]"

definition secondLead :: json where
  "secondLead = JObject [(''businessName'', JString ''B''), (''website'', JNull)]"

text \<open>The tokens of \<open>twoLeadsArray\<close>, each with the white space before it.\<close>

definition twoLeadsLayout :: "(string \<times> token) list" where
  "twoLeadsLayout =
     [([], TLBracket),
      ('' '', TLBrace),
      ([], TString ''businessName''), ([], TColon), ('' '', TString ''Cafe [Mitte]''), ([], TComma),
      ('' '', TString ''city''), ([], TColon), ('' '', TString ''Berlin''), ([], TComma),
      ('' '', TString ''rating''), ([], TColon), ('' '', TNumber ''4.5''), ([], TComma),
      ('' '', TString ''tags''), ([], TColon), ('' '', TLBracket), ([], TString ''wifi''),
      ([], TComma), ('' '', TString ''vegan''), ([], TRBracket),
      ([], TRBrace), ([], TComma),
      ([CHR 0x0A, CHR 0x20, CHR 0x20], TLBrace),
      ([], TString ''businessName''), ([], TColon), ('' '', TString ''B''), ([], TComma),
      ('' '', TString ''website''), ([], TColon), ('' '', TNull),
      ([], TRBrace),
      ('' '', TRBracket)]"

text \<open>No \<open>[\<close> that is followed by a \<open>]\<close>.\<close>

definition proseResponse :: string where
  "proseResponse = ''Sorry] nothing found [yet''"

text \<open>A string literal with the escaped surrogate pair of U+1F600.\<close>

definition emojiArray :: string where
  "emojiArray =
     ''[\"'' @ [CHR 0x5C] @ ''ud83d'' @ [CHR 0x5C] @ ''ude00'' @ ''\"]''"

text \<open>The generation call resolves with the same text at every call.\<close>

definition respond :: "string \<Rightarrow> nat \<Rightarrow> thrown + string option" where
  "respond t i = Inr (Some t)"

text \<open>
  A sample engine: the message of its \<^verbatim>\<open>SyntaxError\<close> quotes the text that does not parse.
\<close>

definition quotingSyntaxError :: "string \<Rightarrow> thrown" where
  "quotingSyntaxError t =
     ErrorObj \<lparr>message = Some (''Unexpected token in JSON text '' @ t), status = None\<rparr>"

section \<open>Properties of the retry wrapper\<close>

declare withRetry_loop.simps [simp del]

lemma str_includes_iff: "str_includes s t \<longleftrightarrow> (\<exists>ps ss. s = ps @ t @ ss)"
proof (induction s)
  case Nil
  then show ?case by auto
next
  case (Cons c cs)
  show ?case
  proof
    assume "str_includes (c # cs) t"
    then consider "prefix t (c # cs)" | "str_includes cs t" by auto
    then show "\<exists>ps ss. c # cs = ps @ t @ ss"
    proof cases
      case 1
      then obtain ss where "c # cs = t @ ss" by (auto simp: prefix_def)
      then have "c # cs = [] @ t @ ss" by simp
      then show ?thesis by blast
    next
      case 2
      with Cons.IH obtain ps ss where "cs = ps @ t @ ss" by blast
      then have "c # cs = (c # ps) @ t @ ss" by simp
      then show ?thesis by blast
    qed
  next
    assume "\<exists>ps ss. c # cs = ps @ t @ ss"
    then obtain ps ss where eq: "c # cs = ps @ t @ ss" by blast
    show "str_includes (c # cs) t"
    proof (cases ps)
      case Nil
      with eq have "prefix t (c # cs)" by (simp add: prefix_def)
      then show ?thesis by simp
    next
      case (Cons p ps')
      with eq have "cs = ps' @ t @ ss" by simp
      with Cons.IH have "str_includes cs t" by blast
      then show ?thesis by simp
    qed
  qed
qed

lemma loop_success:
  "int i < m \<Longrightarrow> fn i = Inr v \<Longrightarrow>
   withRetry_loop fn m r i le ds = \<lparr>result = Inr v, delays = ds, calls = Suc i\<rparr>"
  by (simp add: withRetry_loop.simps)

lemma loop_retry:
  "int i < m - 1 \<Longrightarrow> fn i = Inl e \<Longrightarrow> isRateLimit e \<Longrightarrow>
   withRetry_loop fn m r i le ds =
   withRetry_loop fn m r (Suc i) e (ds @ [2 ^ i * 1000 + r i * 1000])"
  by (subst withRetry_loop.simps) simp

lemma loop_throw_other:
  "int i < m \<Longrightarrow> fn i = Inl e \<Longrightarrow> \<not> isRateLimit e \<Longrightarrow>
   withRetry_loop fn m r i le ds = \<lparr>result = Inl e, delays = ds, calls = Suc i\<rparr>"
  by (subst withRetry_loop.simps) simp

lemma loop_throw_last:
  "int i = m - 1 \<Longrightarrow> fn i = Inl e \<Longrightarrow>
   withRetry_loop fn m r i le ds = \<lparr>result = Inl e, delays = ds, calls = Suc i\<rparr>"
  by (subst withRetry_loop.simps) simp

lemma loop_skip:
  "int (i + d) < m \<Longrightarrow> \<forall>j. i \<le> j \<and> j < i + d \<longrightarrow> (\<exists>e. fn j = Inl e \<and> isRateLimit e) \<Longrightarrow>
   \<exists>le'. withRetry_loop fn m r i le ds =
     withRetry_loop fn m r (i + d) le' (ds @ map (\<lambda>j. 2 ^ j * 1000 + r j * 1000) [i..<i + d])"
proof (induction d arbitrary: i le ds)
  case 0
  then show ?case by auto
next
  case (Suc d)
  from Suc.prems(2) obtain e where e: "fn i = Inl e" "isRateLimit e" by force
  from Suc.prems(1) have lt: "int i < m - 1" by simp
  have step: "withRetry_loop fn m r i le ds =
     withRetry_loop fn m r (Suc i) e (ds @ [2 ^ i * 1000 + r i * 1000])"
    using lt e by (rule loop_retry)
  have "\<exists>le'. withRetry_loop fn m r (Suc i) e (ds @ [2 ^ i * 1000 + r i * 1000]) =
     withRetry_loop fn m r (Suc i + d) le'
       ((ds @ [2 ^ i * 1000 + r i * 1000]) @ map (\<lambda>j. 2 ^ j * 1000 + r j * 1000) [Suc i..<Suc i + d])"
    using Suc.prems by (intro Suc.IH) auto
  moreover have "[i..<i + Suc d] = i # [Suc i..<Suc i + d]"
    by (simp add: upt_rec)
  ultimately show ?case
    using step by (simp del: upt_Suc)
qed

lemma withRetry_k_failures:
  assumes k: "int k < maxRetries"
    and fails: "\<forall>j<k. \<exists>e. fn j = Inl e \<and> isRateLimit e"
    and ok: "fn k = Inr v"
  shows "withRetry fn maxRetries random =
     \<lparr>result = Inr v, delays = map (\<lambda>j. 2 ^ j * 1000 + random j * 1000) [0..<k], calls = Suc k\<rparr>"
proof -
  from fails have "\<forall>j. 0 \<le> j \<and> j < 0 + k \<longrightarrow> (\<exists>e. fn j = Inl e \<and> isRateLimit e)"
    by simp
  with k loop_skip [of 0 k maxRetries fn random Nullish "[]"]
  obtain le' where "withRetry_loop fn maxRetries random 0 Nullish [] =
     withRetry_loop fn maxRetries random k le' (map (\<lambda>j. 2 ^ j * 1000 + random j * 1000) [0..<k])"
    by auto
  with k ok show ?thesis
    by (simp add: withRetry_def loop_success)
qed

lemma withRetry_exhausted:
  assumes pos: "0 < maxRetries"
    and fails: "\<forall>j. int j < maxRetries \<longrightarrow> (\<exists>e. fn j = Inl e \<and> isRateLimit e)"
  shows "withRetry fn maxRetries random =
     \<lparr>result = fn (nat maxRetries - 1),
      delays = map (\<lambda>j. 2 ^ j * 1000 + random j * 1000) [0..<nat maxRetries - 1],
      calls = nat maxRetries\<rparr>"
proof -
  define k where "k = nat maxRetries - 1"
  from pos have k: "int k = maxRetries - 1" by (simp add: k_def)
  then have lt: "int (0 + k) < maxRetries" by simp
  from fails k have "\<forall>j. 0 \<le> j \<and> j < 0 + k \<longrightarrow> (\<exists>e. fn j = Inl e \<and> isRateLimit e)"
    by auto
  with lt loop_skip [of 0 k maxRetries fn random Nullish "[]"]
  obtain le' where skip: "withRetry_loop fn maxRetries random 0 Nullish [] =
     withRetry_loop fn maxRetries random k le' (map (\<lambda>j. 2 ^ j * 1000 + random j * 1000) [0..<k])"
    by auto
  from fails k obtain e where e: "fn k = Inl e" by force
  from pos have "Suc k = nat maxRetries" by (simp add: k_def)
  with skip e k show ?thesis
    by (simp add: withRetry_def loop_throw_last k_def)
qed

text \<open>
  Claim C1. With jitter draws in \<open>[0, 1)\<close>: if the first \<open>k < maxRetries\<close> invocations fail
  with rate-limit errors and invocation \<open>k\<close> (0-based) succeeds, the wrapper returns that
  value after exactly \<open>k + 1\<close> invocations and exactly \<open>k\<close> delays, the delay after failed
  attempt \<open>i\<close> being \<open>2 ^ i\<close> seconds plus the jitter, hence at least \<open>2 ^ i * 1000\<close> ms and
  less than \<open>2 ^ i * 1000 + 1000\<close> ms. If all \<open>maxRetries\<close> invocations fail with rate-limit
  errors, the error of the last invocation is thrown.
\<close>

theorem withRetry_backoff:
  assumes jitter: "\<forall>j. 0 \<le> random j \<and> random j < 1"
  shows "(int k < maxRetries \<and> (\<forall>j<k. \<exists>e. fn j = Inl e \<and> isRateLimit e) \<and> fn k = Inr v \<longrightarrow>
            result (withRetry fn maxRetries random) = Inr v \<and>
            calls (withRetry fn maxRetries random) = Suc k \<and>
            length (delays (withRetry fn maxRetries random)) = k \<and>
            (\<forall>i<k. delays (withRetry fn maxRetries random) ! i = 2 ^ i * 1000 + random i * 1000 \<and>
                    2 ^ i * 1000 \<le> delays (withRetry fn maxRetries random) ! i \<and>
                    delays (withRetry fn maxRetries random) ! i < 2 ^ i * 1000 + 1000))
       \<and> (0 < maxRetries \<and> (\<forall>j. int j < maxRetries \<longrightarrow> (\<exists>e. fn j = Inl e \<and> isRateLimit e)) \<longrightarrow>
            result (withRetry fn maxRetries random) = fn (nat maxRetries - 1) \<and>
            calls (withRetry fn maxRetries random) = nat maxRetries \<and>
            length (delays (withRetry fn maxRetries random)) = nat maxRetries - 1)"
proof (intro conjI impI)
  assume h: "int k < maxRetries \<and> (\<forall>j<k. \<exists>e. fn j = Inl e \<and> isRateLimit e) \<and> fn k = Inr v"
  then have eq: "withRetry fn maxRetries random =
     \<lparr>result = Inr v, delays = map (\<lambda>j. 2 ^ j * 1000 + random j * 1000) [0..<k], calls = Suc k\<rparr>"
    by (intro withRetry_k_failures) auto
  show "result (withRetry fn maxRetries random) = Inr v" by (simp add: eq)
  show "calls (withRetry fn maxRetries random) = Suc k" by (simp add: eq)
  show "length (delays (withRetry fn maxRetries random)) = k" by (simp add: eq)
  show "\<forall>i<k. delays (withRetry fn maxRetries random) ! i = 2 ^ i * 1000 + random i * 1000 \<and>
                    2 ^ i * 1000 \<le> delays (withRetry fn maxRetries random) ! i \<and>
                    delays (withRetry fn maxRetries random) ! i < 2 ^ i * 1000 + 1000"
  proof (intro allI impI)
    fix i assume "i < k"
    then have "delays (withRetry fn maxRetries random) ! i = 2 ^ i * 1000 + random i * 1000"
      by (simp add: eq)
    moreover from jitter have "0 \<le> random i" "random i < 1" by auto
    ultimately show "delays (withRetry fn maxRetries random) ! i = 2 ^ i * 1000 + random i * 1000 \<and>
                    2 ^ i * 1000 \<le> delays (withRetry fn maxRetries random) ! i \<and>
                    delays (withRetry fn maxRetries random) ! i < 2 ^ i * 1000 + 1000"
      by simp
  qed
next
  assume h: "0 < maxRetries \<and> (\<forall>j. int j < maxRetries \<longrightarrow> (\<exists>e. fn j = Inl e \<and> isRateLimit e))"
  then have eq: "withRetry fn maxRetries random =
     \<lparr>result = fn (nat maxRetries - 1),
      delays = map (\<lambda>j. 2 ^ j * 1000 + random j * 1000) [0..<nat maxRetries - 1],
      calls = nat maxRetries\<rparr>"
    by (intro withRetry_exhausted) auto
  show "result (withRetry fn maxRetries random) = fn (nat maxRetries - 1)" by (simp add: eq)
  show "calls (withRetry fn maxRetries random) = nat maxRetries" by (simp add: eq)
  show "length (delays (withRetry fn maxRetries random)) = nat maxRetries - 1" by (simp add: eq)
qed

lemma isRateLimit_quotaError: "isRateLimit quotaError"
  by (simp add: isRateLimit_def quotaError_def errorText_def)

lemma not_isRateLimit_networkError: "\<not> isRateLimit networkError"
  by (simp add: isRateLimit_def networkError_def errorText_def status_is_429_def)

theorem withRetry_backoff_witness:
  "result (withRetry flaky 3 halfJitter) = Inr 42 \<and>
   calls (withRetry flaky 3 halfJitter) = 3 \<and>
   length (delays (withRetry flaky 3 halfJitter)) = 2 \<and>
   delays (withRetry flaky 3 halfJitter) ! 0 = 1500 \<and>
   delays (withRetry flaky 3 halfJitter) ! 1 = 2500 \<and>
   result (withRetry alwaysQuota 3 halfJitter) = Inl quotaError \<and>
   calls (withRetry alwaysQuota 3 halfJitter) = 3 \<and>
   length (delays (withRetry alwaysQuota 3 halfJitter)) = 2"
proof -
  have jitter: "\<forall>j. 0 \<le> halfJitter j \<and> halfJitter j < 1"
    by (simp add: halfJitter_def)
  have fails: "\<forall>j<2. \<exists>e. flaky j = Inl e \<and> isRateLimit e"
    by (simp add: flaky_def isRateLimit_quotaError)
  have ok: "flaky 2 = Inr 42"
    by (simp add: flaky_def)
  have all: "\<forall>j. int j < 3 \<longrightarrow> (\<exists>e. alwaysQuota j = Inl e \<and> isRateLimit e)"
    by (simp add: alwaysQuota_def isRateLimit_quotaError)
  from withRetry_backoff [OF jitter, of 2 3 flaky 42] fails ok
  have a: "result (withRetry flaky 3 halfJitter) = Inr 42 \<and>
     calls (withRetry flaky 3 halfJitter) = 3 \<and>
     length (delays (withRetry flaky 3 halfJitter)) = 2 \<and>
     (\<forall>i<2. delays (withRetry flaky 3 halfJitter) ! i = 2 ^ i * 1000 + halfJitter i * 1000)"
    by simp
  then have "delays (withRetry flaky 3 halfJitter) ! 0 = 2 ^ 0 * 1000 + halfJitter 0 * 1000"
    "delays (withRetry flaky 3 halfJitter) ! 1 = 2 ^ 1 * 1000 + halfJitter 1 * 1000"
    by simp_all
  then have b: "delays (withRetry flaky 3 halfJitter) ! 0 = 1500"
    "delays (withRetry flaky 3 halfJitter) ! 1 = 2500"
    by (simp_all add: halfJitter_def)
  from withRetry_backoff [OF jitter, of 0 3 alwaysQuota 0] all
  have c: "result (withRetry alwaysQuota 3 halfJitter) = Inl quotaError \<and>
     calls (withRetry alwaysQuota 3 halfJitter) = 3 \<and>
     length (delays (withRetry alwaysQuota 3 halfJitter)) = 2"
    by (simp add: alwaysQuota_def)
  from a b c show ?thesis by simp
qed

lemma isRateLimit_iff:
  "isRateLimit e \<longleftrightarrow>
     status_is_429 e \<or> (\<exists>ps ss. errorText e = ps @ ''429'' @ ss) \<or>
     (\<exists>ps ss. errorText e = ps @ ''quota'' @ ss)"
  unfolding isRateLimit_def str_includes_iff by blast

text \<open>
  Claim C2. A thrown value counts as a rate-limit error exactly when its status is 429 or
  its message contains \<open>429\<close> or \<open>quota\<close> as a substring (a nullish value never does).
  When the first invocation throws a value that is not so classified, the wrapper
  rethrows it at once: one invocation, no delay.
\<close>

theorem withRetry_other_error_immediate:
  "(isRateLimit Nullish = False) \<and>
   (isRateLimit (ErrorObj r) \<longleftrightarrow>
      js_error.status r = Some 429 \<or>
      (\<exists>m ps ss. message r = Some m \<and> m = ps @ ''429'' @ ss) \<or>
      (\<exists>m ps ss. message r = Some m \<and> m = ps @ ''quota'' @ ss)) \<and>
   (0 < maxRetries \<and> fn 0 = Inl e \<and> \<not> isRateLimit e \<longrightarrow>
      withRetry fn maxRetries random = \<lparr>result = Inl e, delays = [], calls = 1\<rparr>)"
proof (intro conjI impI)
  show "isRateLimit Nullish = False"
    by (simp add: isRateLimit_def errorText_def status_is_429_def)
  show "isRateLimit (ErrorObj r) \<longleftrightarrow>
      js_error.status r = Some 429 \<or>
      (\<exists>m ps ss. message r = Some m \<and> m = ps @ ''429'' @ ss) \<or>
      (\<exists>m ps ss. message r = Some m \<and> m = ps @ ''quota'' @ ss)"
    unfolding isRateLimit_iff
    by (cases "message r") (auto simp: errorText_def status_is_429_def)
next
  assume "0 < maxRetries \<and> fn 0 = Inl e \<and> \<not> isRateLimit e"
  then show "withRetry fn maxRetries random = \<lparr>result = Inl e, delays = [], calls = 1\<rparr>"
    by (simp add: withRetry_def loop_throw_other)
qed

theorem withRetry_other_error_immediate_witness:
  "\<not> isRateLimit networkError \<and>
   withRetry alwaysNetworkError 3 halfJitter = \<lparr>result = Inl networkError, delays = [], calls = 1\<rparr>"
proof -
  have n: "\<not> isRateLimit networkError"
    by (rule not_isRateLimit_networkError)
  have "(0::int) < 3 \<and> alwaysNetworkError 0 = Inl networkError \<and> \<not> isRateLimit networkError"
    using n by (simp add: alwaysNetworkError_def)
  with withRetry_other_error_immediate [of _ 3 alwaysNetworkError networkError halfJitter] n
  show ?thesis by blast
qed

section \<open>Properties of the bulk loop\<close>

lemma attempted_Cons:
  "attempted s (i # is) =
     (if i < length (discoveredLeads s) then i # attempted s is else attempted s is)"
  by (simp add: attempted_def)

lemma outcomes_Nil: "outcomes E s n [] = []"
  by (simp add: outcomes_def attempted_def)

lemma outcomes_Cons_in:
  "i < length (discoveredLeads s) \<Longrightarrow>
   outcomes E s n (i # is) = (i, qualifyLead E n (discoveredLeads s ! i)) # outcomes E s (Suc n) is"
  by (simp add: outcomes_def attempted_def)

lemma outcomes_Cons_out:
  "\<not> i < length (discoveredLeads s) \<Longrightarrow> outcomes E s n (i # is) = outcomes E s n is"
  by (simp add: outcomes_def attempted_def)

lemma successes_Nil: "successes [] = []"
  by (simp add: successes_def map_filter_simps)

lemma successes_Cons_Inr: "successes ((i, Inr q) # oc) = (i, q) # successes oc"
  by (simp add: successes_def map_filter_simps)

lemma successes_Cons_Inl: "successes ((i, Inl e) # oc) = successes oc"
  by (simp add: successes_def map_filter_simps)

lemma batch_Nil: "batch E s j [] = []"
  by (simp add: batch_def)

lemma batch_Cons:
  "batch E s j ((i, q) # ok) =
     makeLead (randomUUID E j) (nowISO E j) (params s) (discoveredLeads s ! i) q # batch E s (Suc j) ok"
  by (simp add: batch_def)

lemma effects_of_Nil: "effects_of s [] = []"
  by (simp add: effects_of_def)

lemma effects_of_Cons_Inr:
  "effects_of s ((i, Inr q) # oc) = QualifyCall i # Pause 200 # effects_of s oc"
  by (simp add: effects_of_def)

lemma effects_of_Cons_Inl:
  "effects_of s ((i, Inl e) # oc) =
     QualifyCall i # SkipLogged (candidate.businessName (discoveredLeads s ! i)) # effects_of s oc"
  by (simp add: effects_of_def)

lemma bulk_loop_closed:
  "bulk_loop E s indices n validLeads tr =
     (validLeads @ batch E s (length validLeads) (successes (outcomes E s n indices)),
      tr @ effects_of s (outcomes E s n indices))"
proof (induction indices arbitrary: n validLeads tr)
  case Nil
  then show ?case
    by (simp add: outcomes_Nil successes_Nil batch_Nil effects_of_Nil)
next
  case (Cons idx indices)
  show ?case
  proof (cases "idx < length (discoveredLeads s)")
    case False
    then show ?thesis
      by (simp add: at_index_def outcomes_Cons_out Cons.IH)
  next
    case True
    show ?thesis
    proof (cases "qualifyLead E n (discoveredLeads s ! idx)")
      case (Inl e)
      with True show ?thesis
        by (simp add: at_index_def outcomes_Cons_in successes_Cons_Inl effects_of_Cons_Inl Cons.IH)
    next
      case (Inr q)
      with True show ?thesis
        by (simp add: at_index_def outcomes_Cons_in successes_Cons_Inr effects_of_Cons_Inr
            batch_Cons Cons.IH)
    qed
  qed
qed

lemma calls_of_effects_of: "calls_of (effects_of s oc) = map fst oc"
proof (induction oc)
  case Nil
  then show ?case by (simp add: effects_of_Nil calls_of_def map_filter_simps)
next
  case (Cons a oc)
  obtain i r where a: "a = (i, r)" by (cases a)
  from Cons have ih: "List.map_filter (\<lambda>e. case e of QualifyCall i \<Rightarrow> Some i | _ \<Rightarrow> None) (effects_of s oc) = map fst oc"
    by (simp add: calls_of_def)
  show ?case
    by (cases r) (simp_all add: a effects_of_Cons_Inl effects_of_Cons_Inr calls_of_def map_filter_simps ih)
qed

lemma map_fst_outcomes: "map fst (outcomes E s n indices) = attempted s indices"
proof -
  have "map fst (outcomes E s n indices) = map snd (enumerate n (attempted s indices))"
    by (simp add: outcomes_def comp_def case_prod_beta)
  then show ?thesis by simp
qed

lemma subseq_successes: "subseq (map fst (successes oc)) (map fst oc)"
proof (induction oc)
  case Nil
  then show ?case by (simp add: successes_Nil)
next
  case (Cons a oc)
  obtain i r where a: "a = (i, r)" by (cases a)
  show ?case
    using Cons by (cases r) (auto simp: a successes_Cons_Inl successes_Cons_Inr)
qed

lemma length_batch: "length (batch E s j ok) = length ok"
  by (simp add: batch_def)

lemma filter_index_eq:
  "filter_index keep xs = map (\<lambda>i. xs ! i) (filter keep [0..<length xs])"
proof -
  have "enumerate 0 xs = map (\<lambda>i. (i, xs ! i)) [0..<length xs]"
    by (simp add: enumerate_eq_zip zip_eq_conv comp_def map_nth)
  then show ?thesis
    by (simp add: filter_index_def filter_map comp_def)
qed

lemma successes_all_failed:
  "\<forall>(i, r) \<in> set oc. isl r \<Longrightarrow> successes oc = []"
proof (induction oc)
  case Nil
  then show ?case by (simp add: successes_Nil)
next
  case (Cons a oc)
  obtain i r where a: "a = (i, r)" by (cases a)
  with Cons.prems obtain e where "r = Inl e" by (cases r) auto
  with Cons a show ?case by (simp add: successes_Cons_Inl)
qed

lemma sorted_subseq: "subseq xs ys \<Longrightarrow> sorted ys \<Longrightarrow> sorted (xs :: nat list)"
proof -
  assume "subseq xs ys" and srt: "sorted ys"
  then obtain N where "xs = nths ys N" by (auto simp: subseq_conv_nths)
  with srt show "sorted xs" by (simp add: sorted_nths)
qed

lemma subseq_attempted: "subseq (attempted s indices) indices"
  by (simp add: attempted_def)

lemma handleBulkAdd_eq:
  "handleBulkAdd E s =
     (let ok = successes (outcomes E s 0 (selectedIndices s)) in
      (if ok = [] then (if selectedIndices s = [] then s else s\<lparr>isBulkAdding := False\<rparr>)
       else (handleAddLeads (batch E s 0 ok) s)
             \<lparr>discoveredLeads :=
                filter_index (\<lambda>i. \<not> set_has (selectedIndices s) i) (discoveredLeads s),
              selectedIndices := [],
              isBulkAdding := False\<rparr>,
       effects_of s (outcomes E s 0 (selectedIndices s))))"
proof (cases "selectedIndices s = []")
  case True
  then show ?thesis
    by (simp add: handleBulkAdd_def outcomes_Nil successes_Nil effects_of_Nil)
next
  case False
  have b: "batch E s 0 ok = [] \<longleftrightarrow> ok = []" for ok
    using length_batch [of E s 0 ok] by (metis length_0_conv)
  from False show ?thesis
    by (simp add: handleBulkAdd_def bulk_loop_closed Let_def b)
qed

text \<open>
  Claim C5, as the code has it. When at least one selected candidate qualifies: every
  selected index that holds a candidate is attempted, whatever failed before it; the
  leads built from the successful attempts are appended to the store in one batch (one
  call of \<^verbatim>\<open>onAddLeads\<close>, one toast), in the order in which the selection yields their
  indices, which is the order of the pending list when the selection is ascending (as
  after select-all); a failed candidate contributes no lead; every selected candidate,
  failed or not, is removed from the pending list and the selection is emptied.
\<close>

theorem handleBulkAdd_commits_batch:
  assumes some: "successes (outcomes E s 0 (selectedIndices s)) \<noteq> []"
  shows "map fst (outcomes E s 0 (selectedIndices s)) = attempted s (selectedIndices s) \<and>
    subseq (map fst (successes (outcomes E s 0 (selectedIndices s)))) (selectedIndices s) \<and>
    (sorted (selectedIndices s) \<longrightarrow>
       sorted (map fst (successes (outcomes E s 0 (selectedIndices s))))) \<and>
    leads (fst (handleBulkAdd E s)) =
      leads s @ batch E s 0 (successes (outcomes E s 0 (selectedIndices s))) \<and>
    toasts (fst (handleBulkAdd E s)) =
      toasts s @ [LeadsAdded (length (successes (outcomes E s 0 (selectedIndices s))))] \<and>
    discoveredLeads (fst (handleBulkAdd E s)) =
      map (\<lambda>i. discoveredLeads s ! i)
        (filter (\<lambda>i. i \<notin> set (selectedIndices s)) [0..<length (discoveredLeads s)]) \<and>
    selectedIndices (fst (handleBulkAdd E s)) = []"
proof -
  let ?oc = "outcomes E s 0 (selectedIndices s)"
  have att: "map fst ?oc = attempted s (selectedIndices s)"
    by (rule map_fst_outcomes)
  have "subseq (map fst (successes ?oc)) (map fst ?oc)"
    by (rule subseq_successes)
  with att have "subseq (map fst (successes ?oc)) (attempted s (selectedIndices s))"
    by simp
  then have sub: "subseq (map fst (successes ?oc)) (selectedIndices s)"
    using subseq_attempted subseq_order.order_trans by blast
  then have srt: "sorted (selectedIndices s) \<longrightarrow> sorted (map fst (successes ?oc))"
    using sorted_subseq by blast
  from some have st: "fst (handleBulkAdd E s) =
      (handleAddLeads (batch E s 0 (successes ?oc)) s)
        \<lparr>discoveredLeads :=
           filter_index (\<lambda>i. \<not> set_has (selectedIndices s) i) (discoveredLeads s),
         selectedIndices := [],
         isBulkAdding := False\<rparr>"
    by (simp add: handleBulkAdd_eq Let_def)
  have l: "leads (fst (handleBulkAdd E s)) = leads s @ batch E s 0 (successes ?oc)"
    by (simp add: st handleAddLeads_def)
  have t: "toasts (fst (handleBulkAdd E s)) = toasts s @ [LeadsAdded (length (successes ?oc))]"
    by (simp add: st handleAddLeads_def length_batch)
  have d: "discoveredLeads (fst (handleBulkAdd E s)) =
      map (\<lambda>i. discoveredLeads s ! i)
        (filter (\<lambda>i. i \<notin> set (selectedIndices s)) [0..<length (discoveredLeads s)])"
    by (simp add: st filter_index_eq set_has_def)
  have e: "selectedIndices (fst (handleBulkAdd E s)) = []"
    by (simp add: st)
  from att sub srt l t d e show ?thesis by blast
qed

text \<open>
  Claim C6, as the code has it. The loop makes one call of \<^verbatim>\<open>qualifyLead\<close> at a time, each
  one awaited and followed at once by the 200 ms pause (on success) or by the log entry
  (on failure) before the next call starts. The calls are made in the order in which the
  selection yields its indices; that is ascending index order when the selection is
  ascending.
\<close>

theorem handleBulkAdd_sequential:
  "snd (handleBulkAdd E s) = effects_of s (outcomes E s 0 (selectedIndices s)) \<and>
   calls_of (snd (handleBulkAdd E s)) = attempted s (selectedIndices s) \<and>
   (sorted (selectedIndices s) \<longrightarrow> sorted (calls_of (snd (handleBulkAdd E s))))"
proof -
  have a: "snd (handleBulkAdd E s) = effects_of s (outcomes E s 0 (selectedIndices s))"
    by (simp add: handleBulkAdd_eq Let_def)
  then have b: "calls_of (snd (handleBulkAdd E s)) = attempted s (selectedIndices s)"
    by (simp add: calls_of_effects_of map_fst_outcomes)
  have "sorted (selectedIndices s) \<longrightarrow> sorted (attempted s (selectedIndices s))"
    using sorted_subseq subseq_attempted by blast
  with a b show ?thesis by simp
qed

text \<open>
  Claim C10. When every attempted qualification fails, \<^verbatim>\<open>handleBulkAdd\<close> leaves the lead
  store, the pending candidates and the selection as they were; nothing but the
  \<^verbatim>\<open>isBulkAdding\<close> flag is written.
\<close>

theorem handleBulkAdd_all_failed_noop:
  assumes "\<forall>(i, r) \<in> set (outcomes E s 0 (selectedIndices s)). isl r"
  shows "leads (fst (handleBulkAdd E s)) = leads s \<and>
    discoveredLeads (fst (handleBulkAdd E s)) = discoveredLeads s \<and>
    selectedIndices (fst (handleBulkAdd E s)) = selectedIndices s \<and>
    fst (handleBulkAdd E s) =
      (if selectedIndices s = [] then s else s\<lparr>isBulkAdding := False\<rparr>)"
proof -
  from assms have "successes (outcomes E s 0 (selectedIndices s)) = []"
    by (rule successes_all_failed)
  then have "fst (handleBulkAdd E s) =
      (if selectedIndices s = [] then s else s\<lparr>isBulkAdding := False\<rparr>)"
    by (simp add: handleBulkAdd_eq Let_def)
  then show ?thesis by simp
qed

lemma finderSel_reached:
  "toggleSelection envB 2 finderABC = Inr (finderSel [2]) \<and>
   toggleSelection envB 1 (finderSel [2]) = Inr (finderSel [2, 1]) \<and>
   toggleSelection envB 0 (finderSel [2, 1]) = Inr (finderSel [2, 1, 0])"
  by code_simp

lemma finderSel_all_reached: "toggleSelectAll envB finderABC = finderSel [0, 1, 2]"
  by code_simp

theorem handleBulkAdd_commits_batch_witness:
  "successes (outcomes envB (finderSel [0, 1, 2]) 0 (selectedIndices (finderSel [0, 1, 2]))) \<noteq> [] \<and>
   sorted (selectedIndices (finderSel [0, 1, 2])) \<and>
   map fst (successes (outcomes envB (finderSel [0, 1, 2]) 0 (selectedIndices (finderSel [0, 1, 2]))))
     = [0, 2] \<and>
   map lead.businessName (leads (fst (handleBulkAdd envB (finderSel [0, 1, 2])))) = [''A'', ''C''] \<and>
   toasts (fst (handleBulkAdd envB (finderSel [0, 1, 2]))) = [LeadsAdded 2] \<and>
   discoveredLeads (fst (handleBulkAdd envB (finderSel [0, 1, 2]))) = []"
proof -
  let ?s = "finderSel [0, 1, 2]"
  have ok: "successes (outcomes envB ?s 0 (selectedIndices ?s)) = [(0, okQualification), (2, okQualification)]"
    by code_simp
  then have ne: "successes (outcomes envB ?s 0 (selectedIndices ?s)) \<noteq> []"
    by simp
  have srt: "sorted (selectedIndices ?s)"
    by code_simp
  have b: "map lead.businessName (leads ?s @ batch envB ?s 0 [(0, okQualification), (2, okQualification)])
      = [''A'', ''C'']"
    by code_simp
  have d: "map (\<lambda>i. discoveredLeads ?s ! i)
        (filter (\<lambda>i. i \<notin> set (selectedIndices ?s)) [0..<length (discoveredLeads ?s)]) = []"
    by code_simp
  have t: "toasts ?s = []"
    by code_simp
  from handleBulkAdd_commits_batch [OF ne] ok b d t srt show ?thesis
    by simp
qed

theorem handleBulkAdd_original_order_counterexample:
  "map candidate.businessName (discoveredLeads finderABC) = [Some ''A'', Some ''B'', Some ''C''] \<and>
   toggleSelection envB 2 finderABC = Inr (finderSel [2]) \<and>
   toggleSelection envB 1 (finderSel [2]) = Inr (finderSel [2, 1]) \<and>
   toggleSelection envB 0 (finderSel [2, 1]) = Inr (finderSel [2, 1, 0]) \<and>
   map lead.businessName (leads (fst (handleBulkAdd envB (finderSel [2, 1, 0])))) = [''C'', ''A''] \<and>
   discoveredLeads (fst (handleBulkAdd envFail (finderSel [2, 1, 0]))) = discoveredLeads finderABC"
proof -
  have "map candidate.businessName (discoveredLeads finderABC) = [Some ''A'', Some ''B'', Some ''C'']"
    by code_simp
  moreover have "map lead.businessName (leads (fst (handleBulkAdd envB (finderSel [2, 1, 0])))) = [''C'', ''A'']"
    by code_simp
  moreover have "discoveredLeads (fst (handleBulkAdd envFail (finderSel [2, 1, 0]))) = discoveredLeads finderABC"
    by code_simp
  ultimately show ?thesis
    using finderSel_reached by simp
qed

theorem handleBulkAdd_sequential_witness:
  "sorted (selectedIndices (finderSel [0, 1, 2])) \<and>
   snd (handleBulkAdd envB (finderSel [0, 1, 2])) =
     [QualifyCall 0, Pause 200, QualifyCall 1, SkipLogged (Some ''B''), QualifyCall 2, Pause 200] \<and>
   calls_of (snd (handleBulkAdd envB (finderSel [0, 1, 2]))) = [0, 1, 2] \<and>
   sorted (calls_of (snd (handleBulkAdd envB (finderSel [0, 1, 2]))))"
proof -
  let ?s = "finderSel [0, 1, 2]"
  have srt: "sorted (selectedIndices ?s)"
    by code_simp
  have e: "effects_of ?s (outcomes envB ?s 0 (selectedIndices ?s)) =
     [QualifyCall 0, Pause 200, QualifyCall 1, SkipLogged (Some ''B''), QualifyCall 2, Pause 200]"
    by code_simp
  have a: "attempted ?s (selectedIndices ?s) = [0, 1, 2]"
    by code_simp
  note th = handleBulkAdd_sequential [of envB ?s]
  have 1: "snd (handleBulkAdd envB ?s) =
     [QualifyCall 0, Pause 200, QualifyCall 1, SkipLogged (Some ''B''), QualifyCall 2, Pause 200]"
    using th [THEN conjunct1] e by (rule trans)
  have 2: "calls_of (snd (handleBulkAdd envB ?s)) = [0, 1, 2]"
    using th [THEN conjunct2, THEN conjunct1] a by (rule trans)
  from th srt have 3: "sorted (calls_of (snd (handleBulkAdd envB ?s)))"
    by blast
  from srt 1 2 3 show ?thesis
    by blast
qed

theorem handleBulkAdd_index_order_counterexample:
  "toggleSelection envB 2 finderABC = Inr (finderSel [2]) \<and>
   toggleSelection envB 1 (finderSel [2]) = Inr (finderSel [2, 1]) \<and>
   toggleSelection envB 0 (finderSel [2, 1]) = Inr (finderSel [2, 1, 0]) \<and>
   snd (handleBulkAdd envB (finderSel [2, 1, 0])) =
     [QualifyCall 2, Pause 200, QualifyCall 1, SkipLogged (Some ''B''), QualifyCall 0, Pause 200] \<and>
   \<not> sorted (calls_of (snd (handleBulkAdd envB (finderSel [2, 1, 0]))))"
proof -
  have "snd (handleBulkAdd envB (finderSel [2, 1, 0])) =
     [QualifyCall 2, Pause 200, QualifyCall 1, SkipLogged (Some ''B''), QualifyCall 0, Pause 200]"
    by code_simp
  moreover have "\<not> sorted (calls_of (snd (handleBulkAdd envB (finderSel [2, 1, 0]))))"
    by code_simp
  ultimately show ?thesis
    using finderSel_reached by simp
qed

theorem handleBulkAdd_all_failed_noop_witness:
  "list_all (\<lambda>(i, r). isl r)
     (outcomes envFail (finderSel [0, 1, 2]) 0 (selectedIndices (finderSel [0, 1, 2]))) \<and>
   leads (fst (handleBulkAdd envFail (finderSel [0, 1, 2]))) = [] \<and>
   discoveredLeads (fst (handleBulkAdd envFail (finderSel [0, 1, 2]))) =
     [cand ''A'', cand ''B'', cand ''C''] \<and>
   selectedIndices (fst (handleBulkAdd envFail (finderSel [0, 1, 2]))) = [0, 1, 2] \<and>
   fst (handleBulkAdd envFail (finderSel [0, 1, 2])) = finderSel [0, 1, 2]"
proof -
  let ?s = "finderSel [0, 1, 2]"
  have h: "\<forall>(i, r) \<in> set (outcomes envFail ?s 0 (selectedIndices ?s)). isl r"
    by code_simp
  have f: "leads ?s = []" "discoveredLeads ?s = [cand ''A'', cand ''B'', cand ''C'']"
    "selectedIndices ?s = [0, 1, 2]" "?s\<lparr>isBulkAdding := False\<rparr> = ?s"
    by code_simp+
  from h have h': "list_all (\<lambda>(i, r). isl r) (outcomes envFail ?s 0 (selectedIndices ?s))"
    by (simp add: list_all_iff)
  from handleBulkAdd_all_failed_noop [OF h] h' f show ?thesis
    by simp
qed

section \<open>Properties of the single add\<close>

lemma or_else_missing: "or_else x d = (if missing x then d else the x)"
  by (cases x) (auto simp: or_else_def missing_def)

lemma filter_index_remove:
  "filter_index (\<lambda>i. i \<noteq> index) xs = take index xs @ drop (Suc index) xs"
proof (induction xs arbitrary: index rule: rev_induct)
  case Nil
  then show ?case by (simp add: filter_index_def)
next
  case (snoc x xs)
  have e: "filter_index keep (xs @ [x]) =
      filter_index keep xs @ (if keep (length xs) then [x] else [])" for keep
    by (simp add: filter_index_def enumerate_append_eq)
  show ?case
  proof (cases "index < length xs")
    case True
    then show ?thesis by (simp add: e snoc.IH)
  next
    case False
    then show ?thesis by (cases "index = length xs") (simp_all add: e snoc.IH)
  qed
qed

lemma handleSearch_params: "params (handleSearch E s) = params s"
  by (simp add: handleSearch_def split: sum.splits)

text \<open>
  A search with both fields filled in calls \<^verbatim>\<open>discoverLeads\<close> with the industry and city of
  the form and the fetch count; what the call resolves with becomes the pending list.
\<close>

lemma handleSearch_discovers:
  "searchParams.industry (params s0) \<noteq> [] \<Longrightarrow> searchParams.city (params s0) \<noteq> [] \<Longrightarrow>
   discoverLeads_call E (searchParams.industry (params s0)) (searchParams.city (params s0))
     (fetchCount s0) = Inr results \<Longrightarrow>
   discoveredLeads (handleSearch E s0) = results"
  by (simp add: handleSearch_def)

lemma handleAddLead_success:
  assumes "at_index (discoveredLeads s) index = Some rawLead"
    and "qualifyLead E 0 rawLead = Inr q"
  shows "handleAddLead E index s =
     (handleAddLeads [makeLead (randomUUID E 0) (nowISO E 0) (params s) rawLead q] s)
        \<lparr>discoveredLeads := filter_index (\<lambda>i. i \<noteq> index) (discoveredLeads s),
         selectedIndices := [],
         isQualifying := None\<rparr>"
  using assms by (simp add: handleAddLead_def)

text \<open>
  Claim C8, as the code has it. A single-add of a pending candidate whose qualification
  succeeds appends exactly one lead to the store: its identifier is the value drawn from
  \<^verbatim>\<open>crypto.randomUUID()\<close> (so the identifiers of the store stay distinct when the draw is
  new to it), a missing website or phone is \<open>Not listed\<close>, a missing industry or city is
  the industry or city held by the search form when the add is made, the status is
  \<open>New\<close>, the timestamp is the current time; the candidate is removed from the pending
  list and the others keep their order. When the add is made in the state a search has
  left, that is, the form was not changed since, the pending candidates are the ones the
  discovery call returned for the industry and city of the form, and these two arguments
  of the call are the defaults of a missing industry or city.
\<close>

theorem handleAddLead_persists:
  assumes raw: "at_index (discoveredLeads s) index = Some rawLead"
    and q: "qualifyLead E 0 rawLead = Inr q"
  shows "(\<exists>l. leads (handleAddLead E index s) = leads s @ [l] \<and>
      lead.id l = randomUUID E 0 \<and>
      lead.website l =
        (if missing (candidate.website rawLead) then ''Not listed''
         else the (candidate.website rawLead)) \<and>
      lead.phoneNumber l =
        Some (if missing (candidate.phoneNumber rawLead) then ''Not listed''
              else the (candidate.phoneNumber rawLead)) \<and>
      lead.industry l =
        (if missing (candidate.industry rawLead) then searchParams.industry (params s)
         else the (candidate.industry rawLead)) \<and>
      lead.city l =
        (if missing (candidate.city rawLead) then searchParams.city (params s)
         else the (candidate.city rawLead)) \<and>
      lead.priorityScore l = Some (score q) \<and>
      lead.priorityReason l = Some (reason q) \<and>
      lead.status l = New \<and>
      lead.addedAt l = nowISO E 0 \<and>
      (distinct (map lead.id (leads s)) \<and> randomUUID E 0 \<notin> set (map lead.id (leads s)) \<longrightarrow>
         distinct (map lead.id (leads (handleAddLead E index s))))) \<and>
    discoveredLeads (handleAddLead E index s) =
      take index (discoveredLeads s) @ drop (Suc index) (discoveredLeads s) \<and>
    (searchParams.industry (params s0) \<noteq> [] \<and> searchParams.city (params s0) \<noteq> [] \<and>
     discoverLeads_call E' (searchParams.industry (params s0)) (searchParams.city (params s0))
       (fetchCount s0) = Inr results \<and>
     s = handleSearch E' s0 \<longrightarrow>
       discoveredLeads s = results \<and>
       at_index results index = Some rawLead \<and>
       (\<exists>l. leads (handleAddLead E index s) = leads s @ [l] \<and>
          lead.industry l =
            (if missing (candidate.industry rawLead) then searchParams.industry (params s0)
             else the (candidate.industry rawLead)) \<and>
          lead.city l =
            (if missing (candidate.city rawLead) then searchParams.city (params s0)
             else the (candidate.city rawLead))))"
proof -
  let ?l = "makeLead (randomUUID E 0) (nowISO E 0) (params s) rawLead q"
  note st = handleAddLead_success [OF raw q]
  have l: "leads (handleAddLead E index s) = leads s @ [?l]"
    by (simp add: st handleAddLeads_def)
  have f: "lead.id ?l = randomUUID E 0"
    "lead.website ?l =
        (if missing (candidate.website rawLead) then ''Not listed''
         else the (candidate.website rawLead))"
    "lead.phoneNumber ?l =
        Some (if missing (candidate.phoneNumber rawLead) then ''Not listed''
              else the (candidate.phoneNumber rawLead))"
    "lead.industry ?l =
        (if missing (candidate.industry rawLead) then searchParams.industry (params s)
         else the (candidate.industry rawLead))"
    "lead.city ?l =
        (if missing (candidate.city rawLead) then searchParams.city (params s)
         else the (candidate.city rawLead))"
    "lead.priorityScore ?l = Some (score q)"
    "lead.priorityReason ?l = Some (reason q)"
    "lead.status ?l = New"
    "lead.addedAt ?l = nowISO E 0"
    by (simp_all add: makeLead_def or_else_missing)
  have dis: "distinct (map lead.id (leads s)) \<and> randomUUID E 0 \<notin> set (map lead.id (leads s)) \<longrightarrow>
         distinct (map lead.id (leads (handleAddLead E index s)))"
    by (simp add: l f(1))
  have d: "discoveredLeads (handleAddLead E index s) =
      take index (discoveredLeads s) @ drop (Suc index) (discoveredLeads s)"
    by (simp add: st handleAddLeads_def filter_index_remove)
  have p: "searchParams.industry (params s0) \<noteq> [] \<and> searchParams.city (params s0) \<noteq> [] \<and>
     discoverLeads_call E' (searchParams.industry (params s0)) (searchParams.city (params s0))
       (fetchCount s0) = Inr results \<and>
     s = handleSearch E' s0 \<longrightarrow>
       discoveredLeads s = results \<and>
       at_index results index = Some rawLead \<and>
       (\<exists>l. leads (handleAddLead E index s) = leads s @ [l] \<and>
          lead.industry l =
            (if missing (candidate.industry rawLead) then searchParams.industry (params s0)
             else the (candidate.industry rawLead)) \<and>
          lead.city l =
            (if missing (candidate.city rawLead) then searchParams.city (params s0)
             else the (candidate.city rawLead)))"
  proof
    assume h: "searchParams.industry (params s0) \<noteq> [] \<and> searchParams.city (params s0) \<noteq> [] \<and>
     discoverLeads_call E' (searchParams.industry (params s0)) (searchParams.city (params s0))
       (fetchCount s0) = Inr results \<and>
     s = handleSearch E' s0"
    then have ds: "discoveredLeads s = results"
      by (simp add: handleSearch_discovers)
    from h have ps: "params s = params s0"
      by (simp add: handleSearch_params)
    from ds raw have r: "at_index results index = Some rawLead"
      by simp
    from l f(4,5) ps have "\<exists>l. leads (handleAddLead E index s) = leads s @ [l] \<and>
          lead.industry l =
            (if missing (candidate.industry rawLead) then searchParams.industry (params s0)
             else the (candidate.industry rawLead)) \<and>
          lead.city l =
            (if missing (candidate.city rawLead) then searchParams.city (params s0)
             else the (candidate.city rawLead))"
      by simp
    with ds r show "discoveredLeads s = results \<and>
       at_index results index = Some rawLead \<and>
       (\<exists>l. leads (handleAddLead E index s) = leads s @ [l] \<and>
          lead.industry l =
            (if missing (candidate.industry rawLead) then searchParams.industry (params s0)
             else the (candidate.industry rawLead)) \<and>
          lead.city l =
            (if missing (candidate.city rawLead) then searchParams.city (params s0)
             else the (candidate.city rawLead)))"
      by blast
  qed
  from l f dis have "\<exists>l. leads (handleAddLead E index s) = leads s @ [l] \<and>
      lead.id l = randomUUID E 0 \<and>
      lead.website l =
        (if missing (candidate.website rawLead) then ''Not listed''
         else the (candidate.website rawLead)) \<and>
      lead.phoneNumber l =
        Some (if missing (candidate.phoneNumber rawLead) then ''Not listed''
              else the (candidate.phoneNumber rawLead)) \<and>
      lead.industry l =
        (if missing (candidate.industry rawLead) then searchParams.industry (params s)
         else the (candidate.industry rawLead)) \<and>
      lead.city l =
        (if missing (candidate.city rawLead) then searchParams.city (params s)
         else the (candidate.city rawLead)) \<and>
      lead.priorityScore l = Some (score q) \<and>
      lead.priorityReason l = Some (reason q) \<and>
      lead.status l = New \<and>
      lead.addedAt l = nowISO E 0 \<and>
      (distinct (map lead.id (leads s)) \<and> randomUUID E 0 \<notin> set (map lead.id (leads s)) \<longrightarrow>
         distinct (map lead.id (leads (handleAddLead E index s))))"
    by blast
  with d p show ?thesis by blast
qed

theorem handleAddLead_persists_witness:
  "finderABC = handleSearch envB finder0 \<and>
   searchParams.industry (params finder0) = ''Cafes'' \<and>
   searchParams.city (params finder0) = ''Berlin, Germany'' \<and>
   discoverLeads_call envB ''Cafes'' ''Berlin, Germany'' (fetchCount finder0) =
     Inr [cand ''A'', cand ''B'', cand ''C''] \<and>
   discoveredLeads finderABC = [cand ''A'', cand ''B'', cand ''C''] \<and>
   at_index (discoveredLeads finderABC) 2 = Some (cand ''C'') \<and>
   qualifyLead envB 0 (cand ''C'') = Inr okQualification \<and>
   length (leads (handleAddLead envB 2 finderABC)) = 1 \<and>
   map lead.status (leads (handleAddLead envB 2 finderABC)) = [New] \<and>
   map lead.industry (leads (handleAddLead envB 2 finderABC)) = [''Cafes''] \<and>
   map lead.city (leads (handleAddLead envB 2 finderABC)) = [''Berlin, Germany''] \<and>
   map lead.website (leads (handleAddLead envB 2 finderABC)) = [''Not listed''] \<and>
   map lead.phoneNumber (leads (handleAddLead envB 2 finderABC)) = [Some ''Not listed''] \<and>
   distinct (map lead.id (leads (handleAddLead envB 2 finderABC))) \<and>
   discoveredLeads (handleAddLead envB 2 finderABC) = [cand ''A'', cand ''B'']"
proof -
  let ?found = "[cand ''A'', cand ''B'', cand ''C'']"
  have search: "finderABC = handleSearch envB finder0"
    by code_simp
  have p0: "searchParams.industry (params finder0) = ''Cafes''"
    "searchParams.city (params finder0) = ''Berlin, Germany''"
    by code_simp+
  have call: "discoverLeads_call envB ''Cafes'' ''Berlin, Germany'' (fetchCount finder0) = Inr ?found"
    by code_simp
  have raw: "at_index (discoveredLeads finderABC) 2 = Some (cand ''C'')"
    by code_simp
  have q: "qualifyLead envB 0 (cand ''C'') = Inr okQualification"
    by code_simp
  have empty: "leads finderABC = []"
    by code_simp
  have rest: "take 2 (discoveredLeads finderABC) @ drop (Suc 2) (discoveredLeads finderABC) =
      [cand ''A'', cand ''B'']"
    by code_simp
  have m: "missing (candidate.website (cand ''C''))" "missing (candidate.phoneNumber (cand ''C''))"
    "missing (candidate.industry (cand ''C''))" "missing (candidate.city (cand ''C''))"
    by (simp_all add: missing_def cand_def)
  note th = handleAddLead_persists [OF raw q, of finder0 envB ?found]
  from th search p0 call have found: "discoveredLeads finderABC = ?found"
    by simp
  from th search p0 call m obtain l' where
    l': "leads (handleAddLead envB 2 finderABC) = leads finderABC @ [l']"
    and g: "lead.industry l' = ''Cafes''" "lead.city l' = ''Berlin, Germany''"
    by auto
  from th obtain l where l: "leads (handleAddLead envB 2 finderABC) = leads finderABC @ [l]"
    and f: "lead.website l = ''Not listed''" "lead.phoneNumber l = Some ''Not listed''"
      "lead.status l = New"
    and dis: "distinct (map lead.id (leads finderABC)) \<and>
         randomUUID envB 0 \<notin> set (map lead.id (leads finderABC)) \<longrightarrow>
         distinct (map lead.id (leads (handleAddLead envB 2 finderABC)))"
    using m by auto
  from l l' have same: "l' = l"
    by simp
  from dis empty have d: "distinct (map lead.id (leads (handleAddLead envB 2 finderABC)))"
    by simp
  from th rest have r: "discoveredLeads (handleAddLead envB 2 finderABC) = [cand ''A'', cand ''B'']"
    by simp
  from search p0 call found raw q l empty f g same d r show ?thesis
    by simp
qed

theorem handleAddLead_edited_params_counterexample:
  "handleSearch envB finder0 = finderABC \<and>
   searchParams.industry (params finder0) = ''Cafes'' \<and>
   searchParams.city (params finder0) = ''Berlin, Germany'' \<and>
   candidate.industry (discoveredLeads finderABC ! 2) = None \<and>
   candidate.city (discoveredLeads finderABC ! 2) = None \<and>
   map lead.industry (leads (handleAddLead envB 2 (setParams emptyParams finderABC))) = [''''] \<and>
   map lead.city (leads (handleAddLead envB 2 (setParams emptyParams finderABC))) = [''''] \<and>
   map lead.industry (leads (handleAddLead envB 2 (setParams emptyParams finderABC))) \<noteq> [''Cafes'']"
  by code_simp

section \<open>Properties of the duplicate policy\<close>

lemma upper_letters_checked:
  "list_all (\<lambda>c. is_upper c \<and> (of_char (lower_char c) :: nat) = of_char c + 32)
     ''ABCDEFGHIJKLMNOPQRSTUVWXYZ''"
  by code_simp

lemma upper_codes_checked:
  "list_all (\<lambda>n. char_of n \<in> set ''ABCDEFGHIJKLMNOPQRSTUVWXYZ'') [65..<91::nat]"
  by code_simp

lemma is_upper_iff: "is_upper c \<longleftrightarrow> c \<in> set ''ABCDEFGHIJKLMNOPQRSTUVWXYZ''"
proof
  assume "is_upper c"
  then have "(of_char c :: nat) \<in> {65..<91}"
    by (simp add: is_upper_def)
  then have "(of_char c :: nat) \<in> set [65..<91]"
    by (simp only: set_upt)
  with upper_codes_checked have "char_of (of_char c :: nat) \<in> set ''ABCDEFGHIJKLMNOPQRSTUVWXYZ''"
    unfolding list_all_iff by blast
  then show "c \<in> set ''ABCDEFGHIJKLMNOPQRSTUVWXYZ''"
    by simp
next
  assume "c \<in> set ''ABCDEFGHIJKLMNOPQRSTUVWXYZ''"
  with upper_letters_checked show "is_upper c"
    unfolding list_all_iff by blast
qed

lemma lower_char_upper: "is_upper c \<Longrightarrow> (of_char (lower_char c) :: nat) = of_char c + 32"
  using upper_letters_checked unfolding list_all_iff is_upper_iff by blast

lemma lower_char_other: "\<not> is_upper c \<Longrightarrow> lower_char c = c"
proof -
  assume "\<not> is_upper c"
  then have "c \<notin> set ''ABCDEFGHIJKLMNOPQRSTUVWXYZ''"
    by (simp add: is_upper_iff)
  then have "map_of (zip ''ABCDEFGHIJKLMNOPQRSTUVWXYZ'' ''abcdefghijklmnopqrstuvwxyz'') c = None"
    by (subst map_of_zip_is_None) simp_all
  then show ?thesis
    by (simp add: lower_char_def)
qed

lemma lower_char_eq_iff: "lower_char a = lower_char b \<longleftrightarrow> same_letter a b"
proof -
  have inj: "x = y \<longleftrightarrow> (of_char x :: nat) = of_char y" for x y :: char
    by simp
  show ?thesis
  proof (cases "is_upper a")
    case ua: True
    show ?thesis
    proof (cases "is_upper b")
      case True
      with ua have "lower_char a = lower_char b \<longleftrightarrow> (of_char a :: nat) = of_char b"
        by (subst inj) (simp add: lower_char_upper)
      moreover from ua True have "same_letter a b \<longleftrightarrow> (of_char a :: nat) = of_char b"
        by (auto simp: same_letter_def is_upper_def)
      ultimately show ?thesis by simp
    next
      case False
      with ua have "lower_char a = lower_char b \<longleftrightarrow> (of_char b :: nat) = of_char a + 32"
        by (subst inj) (auto simp: lower_char_upper lower_char_other)
      moreover from ua False have "same_letter a b \<longleftrightarrow> (of_char b :: nat) = of_char a + 32"
        by (auto simp: same_letter_def)
      ultimately show ?thesis by simp
    qed
  next
    case na: False
    show ?thesis
    proof (cases "is_upper b")
      case True
      with na have "lower_char a = lower_char b \<longleftrightarrow> (of_char a :: nat) = of_char b + 32"
        by (subst inj) (auto simp: lower_char_upper lower_char_other)
      moreover from na True have "same_letter a b \<longleftrightarrow> (of_char a :: nat) = of_char b + 32"
        by (auto simp: same_letter_def)
      ultimately show ?thesis by simp
    next
      case False
      with na show ?thesis
        by (auto simp: lower_char_other same_letter_def)
    qed
  qed
qed

lemma toLowerCase_ascii: "list_all is_ascii a \<Longrightarrow> toLowerCase E a = map lower_char a"
  by (simp add: toLowerCase_def)

lemma toLowerCase_ascii_eq_iff:
  assumes "list_all is_ascii a" and "list_all is_ascii b"
  shows "toLowerCase E a = toLowerCase E b \<longleftrightarrow> list_all2 same_letter a b"
proof -
  have "map lower_char a = map lower_char b \<longleftrightarrow>
      list_all2 (\<lambda>x y. lower_char x = lower_char y) a b"
    by (auto simp: list_eq_iff_nth_eq list_all2_conv_all_nth)
  with assms show ?thesis
    by (simp add: toLowerCase_ascii lower_char_eq_iff)
qed

lemma toLowerCase_capitals:
  "toLowerCase E ''ABCDEFGHIJKLMNOPQRSTUVWXYZ'' = ''abcdefghijklmnopqrstuvwxyz''"
  by (simp add: toLowerCase_def is_ascii_def lower_char_def)

lemma isDuplicate_iff:
  "isDuplicate E ls name \<longleftrightarrow>
     (\<exists>n l. name = Some n \<and> n \<noteq> [] \<and> l \<in> set ls \<and>
        toLowerCase E (lead.businessName l) = toLowerCase E n)"
  by (cases name) (auto simp: isDuplicate_def list_ex_iff)

lemma set_set_add: "set (set_add xs i) = insert i (set xs)"
  by (auto simp: set_add_def)

lemma set_foldl_set_add: "set (foldl set_add acc arr) = set acc \<union> set arr"
  by (induction arr arbitrary: acc) (auto simp: set_set_add)

lemma foldl_set_add_distinct:
  "distinct (acc @ arr) \<Longrightarrow> foldl set_add acc arr = acc @ arr"
  by (induction arr arbitrary: acc) (auto simp: set_add_def)

lemma distinct_availableIndices: "distinct (availableIndices E s)"
proof -
  have "distinct (map fst (enumerate 0 (discoveredLeads s)))"
    by simp
  then show ?thesis
    unfolding availableIndices_def by (rule distinct_map_filter)
qed

lemma set_from_array_availableIndices:
  "set_from_array (availableIndices E s) = availableIndices E s"
  using foldl_set_add_distinct [of "[]" "availableIndices E s"] distinct_availableIndices
  by (simp add: set_from_array_def)

lemma set_availableIndices:
  "set (availableIndices E s) =
     {i. i < length (discoveredLeads s) \<and>
         \<not> isDuplicate E (leads s) (candidate.businessName (discoveredLeads s ! i))}"
proof -
  have "enumerate 0 (discoveredLeads s) =
      map (\<lambda>i. (i, discoveredLeads s ! i)) [0..<length (discoveredLeads s)]"
    by (simp add: enumerate_eq_zip zip_eq_conv comp_def map_nth)
  then show ?thesis
    by (force simp: availableIndices_def)
qed

lemma sorted_availableIndices: "sorted (availableIndices E s)"
proof -
  have "sorted (map fst (enumerate 0 (discoveredLeads s)))"
    by simp
  then show ?thesis
    unfolding availableIndices_def by (rule sorted_filter)
qed

text \<open>After select-all the selection is in ascending index order.\<close>

lemma toggleSelectAll_sorted: "sorted (selectedIndices (toggleSelectAll E s))"
  by (simp add: toggleSelectAll_def set_from_array_availableIndices sorted_availableIndices)

text \<open>
  The leads that the two adding handlers create have a business name, so a store filled
  by them holds no lead without one.
\<close>

lemma makeLead_named: "lead.businessName (makeLead u t p c q) \<noteq> []"
  by (cases "candidate.businessName c") (auto simp: makeLead_def or_else_def)

lemma named_store_append: "named_store (xs @ ys) \<longleftrightarrow> named_store xs \<and> named_store ys"
  by (simp add: named_store_def)

lemma named_store_batch: "named_store (batch E s j ok)"
  by (auto simp: named_store_def batch_def list_all_iff makeLead_named)

lemma handleAddLead_named:
  "named_store (leads s) \<Longrightarrow> named_store (leads (handleAddLead E index s))"
  by (auto simp: handleAddLead_def handleAddLeads_def named_store_def makeLead_named
      split: option.splits sum.splits)

lemma handleBulkAdd_named:
  "named_store (leads s) \<Longrightarrow> named_store (leads (fst (handleBulkAdd E s)))"
  using named_store_batch [of E s 0]
  by (auto simp: handleBulkAdd_eq Let_def handleAddLeads_def named_store_append)

text \<open>
  Claim C9, as the code has it. A candidate is flagged as a duplicate exactly when it
  has a business name, not the empty one, that is equal to the business name of some
  stored lead after \<^verbatim>\<open>toLowerCase\<close> of both. \<^verbatim>\<open>toLowerCase\<close> turns the capitals \<open>A\<close> to \<open>Z\<close>
  into \<open>a\<close> to \<open>z\<close>; two ASCII names are equal after it exactly when they have the same
  length and the same letter at every position, whatever the case; on a name with other
  characters it is the case mapping of the runtime. Toggling the selection of a duplicate
  leaves the state as it is, a toggle adds no index but that of a pending candidate that
  is no duplicate, select-all selects nothing or exactly the indices of the candidates
  that are no duplicates, and \<^verbatim>\<open>handleAddLead\<close> on a duplicate whose qualification succeeds
  adds it to the store all the same.
\<close>

theorem duplicates_flagged_and_unselectable:
  "(isDuplicate E (leads s) name \<longleftrightarrow>
       (\<exists>n l. name = Some n \<and> n \<noteq> [] \<and> l \<in> set (leads s) \<and>
          toLowerCase E (lead.businessName l) = toLowerCase E n)) \<and>
    toLowerCase E ''ABCDEFGHIJKLMNOPQRSTUVWXYZ'' = ''abcdefghijklmnopqrstuvwxyz'' \<and>
    (list_all is_ascii a \<and> list_all is_ascii b \<longrightarrow>
       (toLowerCase E a = toLowerCase E b \<longleftrightarrow> list_all2 same_letter a b)) \<and>
    (\<not> list_all is_ascii a \<longrightarrow> toLowerCase E a = unicodeLowerCase E a) \<and>
    (at_index (discoveredLeads s) index = Some c \<and>
       isDuplicate E (leads s) (candidate.businessName c) \<longrightarrow>
       toggleSelection E index s = Inr s) \<and>
    (toggleSelection E index s = Inr s' \<and> i \<in> set (selectedIndices s') \<and>
       i \<notin> set (selectedIndices s) \<longrightarrow>
       i = index \<and> i < length (discoveredLeads s) \<and>
       \<not> isDuplicate E (leads s) (candidate.businessName (discoveredLeads s ! i))) \<and>
    (selectedIndices (toggleSelectAll E s) = [] \<or>
       selectedIndices (toggleSelectAll E s) = availableIndices E s) \<and>
    set (availableIndices E s) =
      {i. i < length (discoveredLeads s) \<and>
          \<not> isDuplicate E (leads s) (candidate.businessName (discoveredLeads s ! i))} \<and>
    (at_index (discoveredLeads s) index = Some c \<and>
       isDuplicate E (leads s) (candidate.businessName c) \<and>
       qualifyLead E 0 c = Inr q \<longrightarrow>
       leads (handleAddLead E index s) =
         leads s @ [makeLead (randomUUID E 0) (nowISO E 0) (params s) c q])"
proof (intro conjI impI)
  show "isDuplicate E (leads s) name \<longleftrightarrow>
       (\<exists>n l. name = Some n \<and> n \<noteq> [] \<and> l \<in> set (leads s) \<and>
          toLowerCase E (lead.businessName l) = toLowerCase E n)"
    by (rule isDuplicate_iff)
next
  show "toLowerCase E ''ABCDEFGHIJKLMNOPQRSTUVWXYZ'' = ''abcdefghijklmnopqrstuvwxyz''"
    by (rule toLowerCase_capitals)
next
  assume "list_all is_ascii a \<and> list_all is_ascii b"
  then show "toLowerCase E a = toLowerCase E b \<longleftrightarrow> list_all2 same_letter a b"
    by (simp add: toLowerCase_ascii_eq_iff)
next
  assume "\<not> list_all is_ascii a"
  then show "toLowerCase E a = unicodeLowerCase E a"
    by (simp add: toLowerCase_def)
next
  assume "at_index (discoveredLeads s) index = Some c \<and>
       isDuplicate E (leads s) (candidate.businessName c)"
  then show "toggleSelection E index s = Inr s"
    by (simp add: toggleSelection_def)
next
  assume h: "toggleSelection E index s = Inr s' \<and> i \<in> set (selectedIndices s') \<and>
       i \<notin> set (selectedIndices s)"
  then obtain c where c: "at_index (discoveredLeads s) index = Some c"
    by (cases "at_index (discoveredLeads s) index") (auto simp: toggleSelection_def)
  then have rng: "index < length (discoveredLeads s)" "c = discoveredLeads s ! index"
    by (auto simp: at_index_def split: if_splits)
  from h c have nd: "\<not> isDuplicate E (leads s) (candidate.businessName c)"
    by (auto simp: toggleSelection_def split: if_splits)
  from h c nd have "i = index"
    by (auto simp: toggleSelection_def set_has_def set_delete_def set_set_add split: if_splits)
  with rng nd show "i = index" "i < length (discoveredLeads s)"
    "\<not> isDuplicate E (leads s) (candidate.businessName (discoveredLeads s ! i))"
    by simp_all
next
  show "selectedIndices (toggleSelectAll E s) = [] \<or>
       selectedIndices (toggleSelectAll E s) = availableIndices E s"
    by (simp add: toggleSelectAll_def set_from_array_availableIndices)
next
  show "set (availableIndices E s) =
      {i. i < length (discoveredLeads s) \<and>
          \<not> isDuplicate E (leads s) (candidate.businessName (discoveredLeads s ! i))}"
    by (rule set_availableIndices)
next
  assume "at_index (discoveredLeads s) index = Some c \<and>
       isDuplicate E (leads s) (candidate.businessName c) \<and>
       qualifyLead E 0 c = Inr q"
  then show "leads (handleAddLead E index s) =
         leads s @ [makeLead (randomUUID E 0) (nowISO E 0) (params s) c q]"
    by (simp add: handleAddLead_def handleAddLeads_def)
qed

theorem duplicates_flagged_and_unselectable_witness:
  "map lead.businessName (leads finderAcme) = [''acme co''] \<and>
   at_index (discoveredLeads finderAcme) 0 = Some (cand ''Acme Co'') \<and>
   list_all is_ascii ''acme co'' \<and> list_all is_ascii ''Acme Co'' \<and>
   list_all2 same_letter ''acme co'' ''Acme Co'' \<and>
   toLowerCase envB ''acme co'' = toLowerCase envB ''Acme Co'' \<and>
   isDuplicate envB (leads finderAcme) (Some ''Acme Co'') \<and>
   toggleSelection envB 0 finderAcme = Inr finderAcme \<and>
   toggleSelection envB 1 finderAcme = Inr (finderAcme\<lparr>selectedIndices := [1]\<rparr>) \<and>
   \<not> isDuplicate envB (leads finderAcme)
       (candidate.businessName (discoveredLeads finderAcme ! 1)) \<and>
   selectedIndices (toggleSelectAll envB finderAcme) = [1] \<and>
   map lead.businessName (leads (handleAddLead envB 0 finderAcme)) = [''acme co'', ''Acme Co''] \<and>
   \<not> list_all is_ascii (''CAF'' @ [CHR 0xC3, CHR 0x89]) \<and>
   toLowerCase envB (''CAF'' @ [CHR 0xC3, CHR 0x89]) = ''caf'' @ [CHR 0xC3, CHR 0xA9] \<and>
   isDuplicate envB (leads finderCafe) (Some (''caf'' @ [CHR 0xC3, CHR 0xA9])) \<and>
   toggleSelection envB 0 finderCafe = Inr finderCafe"
proof -
  let ?s = "finderAcme"
  let ?c = "cand ''Acme Co''"
  let ?CAFE = "''CAF'' @ [CHR 0xC3, CHR 0x89]"
  let ?cafe = "''caf'' @ [CHR 0xC3, CHR 0xA9]"
  have names: "map lead.businessName (leads ?s) = [''acme co'']"
    by code_simp
  have raw: "at_index (discoveredLeads ?s) 0 = Some ?c"
    by code_simp
  have nm: "candidate.businessName ?c = Some ''Acme Co''"
    by code_simp
  have ascii: "list_all is_ascii ''acme co''" "list_all is_ascii ''Acme Co''"
    by code_simp+
  have same: "list_all2 same_letter ''acme co'' ''Acme Co''"
    by code_simp
  have stored: "storedLead ''id-1'' ''acme co'' \<in> set (leads ?s)"
    "lead.businessName (storedLead ''id-1'' ''acme co'') = ''acme co''"
    by code_simp+
  have q: "qualifyLead envB 0 ?c = Inr okQualification"
    by code_simp
  have t1: "toggleSelection envB 1 ?s = Inr (?s\<lparr>selectedIndices := [1]\<rparr>)"
    by code_simp
  have sel: "(1::nat) \<in> set (selectedIndices (?s\<lparr>selectedIndices := [1]\<rparr>)) \<and>
      1 \<notin> set (selectedIndices ?s)"
    by code_simp
  have all: "selectedIndices (toggleSelectAll envB ?s) \<noteq> []"
    by code_simp
  have av: "availableIndices envB ?s = [1]"
    by code_simp
  have added: "map lead.businessName
      (leads ?s @ [makeLead (randomUUID envB 0) (nowISO envB 0) (params ?s) ?c okQualification]) =
      [''acme co'', ''Acme Co'']"
    by code_simp
  note th0 = duplicates_flagged_and_unselectable
    [where E = envB and s = ?s and name = "Some ''Acme Co''" and a = "''acme co''"
       and b = "''Acme Co''" and index = 0 and c = ?c and s' = ?s and i = 0
       and q = okQualification]
  note th1 = duplicates_flagged_and_unselectable
    [where E = envB and s = ?s and name = "Some ''Acme Co''" and a = "''acme co''"
       and b = "''Acme Co''" and index = 1 and c = ?c
       and s' = "?s\<lparr>selectedIndices := [1]\<rparr>" and i = 1 and q = okQualification]
  from th0 ascii same have low: "toLowerCase envB ''acme co'' = toLowerCase envB ''Acme Co''"
    by blast
  have "\<exists>n l. Some ''Acme Co'' = Some n \<and> n \<noteq> [] \<and> l \<in> set (leads ?s) \<and>
      toLowerCase envB (lead.businessName l) = toLowerCase envB n"
    using stored low by (intro exI [of _ "''Acme Co''"] exI [of _ "storedLead ''id-1'' ''acme co''"]) simp
  with th0 have dup: "isDuplicate envB (leads ?s) (Some ''Acme Co'')"
    by blast
  with th0 raw nm have tog: "toggleSelection envB 0 ?s = Inr ?s"
    by simp
  from th1 t1 sel have nd:
    "\<not> isDuplicate envB (leads ?s) (candidate.businessName (discoveredLeads ?s ! 1))"
    by blast
  from th0 all av have sa: "selectedIndices (toggleSelectAll envB ?s) = [1]"
    by simp
  from th0 raw nm dup q have "leads (handleAddLead envB 0 ?s) =
      leads ?s @ [makeLead (randomUUID envB 0) (nowISO envB 0) (params ?s) ?c okQualification]"
    by simp
  with added have ad:
    "map lead.businessName (leads (handleAddLead envB 0 ?s)) = [''acme co'', ''Acme Co'']"
    by simp
  have na: "\<not> list_all is_ascii ?CAFE" "\<not> list_all is_ascii ?cafe"
    by code_simp+
  have ul: "unicodeLowerCase envB ?CAFE = ?cafe" "unicodeLowerCase envB ?cafe = ?cafe"
    by code_simp+
  have craw: "at_index (discoveredLeads finderCafe) 0 = Some (cand ?cafe)"
    "candidate.businessName (cand ?cafe) = Some ?cafe"
    by code_simp+
  have cstored: "storedLead ''id-1'' ?CAFE \<in> set (leads finderCafe)"
    "lead.businessName (storedLead ''id-1'' ?CAFE) = ?CAFE"
    "?cafe \<noteq> []"
    by code_simp+
  note th2 = duplicates_flagged_and_unselectable
    [where E = envB and s = finderCafe and name = "Some ?cafe" and a = ?CAFE
       and b = ?cafe and index = 0 and c = "cand ?cafe" and s' = finderCafe and i = 0
       and q = okQualification]
  note th3 = duplicates_flagged_and_unselectable
    [where E = envB and s = finderCafe and name = "Some ?cafe" and a = ?cafe
       and b = ?cafe and index = 0 and c = "cand ?cafe" and s' = finderCafe and i = 0
       and q = okQualification]
  from th2 na(1) ul(1) have lC: "toLowerCase envB ?CAFE = ?cafe"
    by simp
  from th3 na(2) ul(2) have lc: "toLowerCase envB ?cafe = ?cafe"
    by simp
  have "\<exists>n l. Some ?cafe = Some n \<and> n \<noteq> [] \<and> l \<in> set (leads finderCafe) \<and>
      toLowerCase envB (lead.businessName l) = toLowerCase envB n"
    using cstored lC lc
    by (intro exI [of _ ?cafe] exI [of _ "storedLead ''id-1'' ?CAFE"]) simp
  with th2 have cdup: "isDuplicate envB (leads finderCafe) (Some ?cafe)"
    by blast
  with th2 craw have ctog: "toggleSelection envB 0 finderCafe = Inr finderCafe"
    by simp
  from names raw ascii same low dup tog t1 nd sa ad na(1) lC cdup ctog show ?thesis
    by blast
qed

theorem duplicate_nameless_counterexample:
  "storedLead ''id-1'' [] \<in> set (leads finderNameless) \<and>
   lead.businessName (storedLead ''id-1'' []) = [] \<and>
   candidate.businessName (discoveredLeads finderNameless ! 0) = Some [] \<and>
   toLowerCase envB (lead.businessName (storedLead ''id-1'' [])) = toLowerCase envB [] \<and>
   list_all2 same_letter (lead.businessName (storedLead ''id-1'' [])) [] \<and>
   \<not> isDuplicate envB (leads finderNameless)
       (candidate.businessName (discoveredLeads finderNameless ! 0))"
  by code_simp

section \<open>Properties of the campaign finish\<close>

lemma set_sentLeadIds: "set (sentLeadIds s) = {i. markedSent s i}"
  by (auto simp: sentLeadIds_def markedSent_def dest: map_of_SomeD intro: rev_image_eqI)

lemma sentLeads_eq: "sentLeads s = filter (\<lambda>l. markedSent s (lead.id l)) (outreachLeads s)"
  by (simp add: sentLeads_def set_sentLeadIds)

lemma markedSent_handleMarkAsSent:
  "markedSent (handleMarkAsSent i s) j \<longleftrightarrow> j = i \<or> markedSent s j"
  by (simp add: markedSent_def handleMarkAsSent_def update_conv')

lemma length_sentLeads_card:
  assumes "distinct (map lead.id (outreachLeads s))"
  shows "length (sentLeads s) =
     card {i \<in> lead.id ` set (outreachLeads s). markedSent s i}"
proof -
  have d: "distinct (map lead.id (sentLeads s))"
    unfolding sentLeads_eq using assms by (rule distinct_map_filter)
  have "set (map lead.id (sentLeads s)) = {i \<in> lead.id ` set (outreachLeads s). markedSent s i}"
    by (auto simp: sentLeads_eq)
  then have "card {i \<in> lead.id ` set (outreachLeads s). markedSent s i} =
      length (map lead.id (sentLeads s))"
    using d by (metis distinct_card)
  then show ?thesis by simp
qed

text \<open>
  Claim C7. Finishing the campaign adds to \<open>sent\<close> and to \<open>dailyLimitUsed\<close> the number of
  leads of the session that are marked sent (the number of marked identifiers of the
  session when its leads have distinct identifiers) and leaves the other counters alone;
  in the store, exactly the leads whose identifier belongs to a lead of the session
  marked sent get the status \<open>Contacted\<close>, with every other field as before, and every
  lead that is not marked sent is still in the store as it was.
\<close>

theorem handleFinishCampaign_updates:
  "sent (stats (handleFinishCampaign s)) = sent (stats s) + int (length (sentLeads s)) \<and>
   dailyLimitUsed (stats (handleFinishCampaign s)) =
     dailyLimitUsed (stats s) + int (length (sentLeads s)) \<and>
   opened (stats (handleFinishCampaign s)) = opened (stats s) \<and>
   replied (stats (handleFinishCampaign s)) = replied (stats s) \<and>
   clicks (stats (handleFinishCampaign s)) = clicks (stats s) \<and>
   sentLeads s = filter (\<lambda>l. markedSent s (lead.id l)) (outreachLeads s) \<and>
   (distinct (map lead.id (outreachLeads s)) \<longrightarrow>
      length (sentLeads s) = card {i \<in> lead.id ` set (outreachLeads s). markedSent s i}) \<and>
   leads (handleFinishCampaign s) =
     map (\<lambda>l. if \<exists>t \<in> set (outreachLeads s). lead.id t = lead.id l \<and> markedSent s (lead.id t)
              then l\<lparr>status := Contacted\<rparr> else l) (leads s) \<and>
   (\<forall>l \<in> set (leads s). \<not> markedSent s (lead.id l) \<longrightarrow> l \<in> set (leads (handleFinishCampaign s)))"
proof -
  let ?s' = "handleFinishCampaign s"
  have st: "sent (stats ?s') = sent (stats s) + int (length (sentLeads s))"
    "dailyLimitUsed (stats ?s') = dailyLimitUsed (stats s) + int (length (sentLeads s))"
    "opened (stats ?s') = opened (stats s)"
    "replied (stats ?s') = replied (stats s)"
    "clicks (stats ?s') = clicks (stats s)"
    by (simp_all add: handleFinishCampaign_def handleSendEmails_def)
  have ex: "list_ex (\<lambda>tl. lead.id tl = lead.id l) (sentLeads s) \<longleftrightarrow>
      (\<exists>t \<in> set (outreachLeads s). lead.id t = lead.id l \<and> markedSent s (lead.id t))" for l
    by (auto simp: list_ex_iff sentLeads_eq)
  have ls: "leads ?s' =
     map (\<lambda>l. if \<exists>t \<in> set (outreachLeads s). lead.id t = lead.id l \<and> markedSent s (lead.id t)
              then l\<lparr>status := Contacted\<rparr> else l) (leads s)"
    by (simp add: handleFinishCampaign_def handleSendEmails_def ex)
  have un: "\<forall>l \<in> set (leads s). \<not> markedSent s (lead.id l) \<longrightarrow> l \<in> set (leads ?s')"
  proof (intro ballI impI)
    fix l assume l: "l \<in> set (leads s)" and n: "\<not> markedSent s (lead.id l)"
    define f where "f = (\<lambda>l::lead. if \<exists>t \<in> set (outreachLeads s). lead.id t = lead.id l \<and> markedSent s (lead.id t)
              then l\<lparr>status := Contacted\<rparr> else l)"
    from n have "l = f l" by (auto simp: f_def)
    then have "l \<in> f ` set (leads s)" using l by (rule image_eqI)
    moreover have "set (leads ?s') = f ` set (leads s)" by (simp add: ls f_def)
    ultimately show "l \<in> set (leads ?s')" by simp
  qed
  have cd: "distinct (map lead.id (outreachLeads s)) \<longrightarrow>
      length (sentLeads s) = card {i \<in> lead.id ` set (outreachLeads s). markedSent s i}"
    using length_sentLeads_card by blast
  show ?thesis
    apply (intro conjI)
            apply (rule st(1))
           apply (rule st(2))
          apply (rule st(3))
         apply (rule st(4))
        apply (rule st(5))
       apply (rule sentLeads_eq)
      apply (rule cd)
     apply (rule ls)
    apply (rule un)
    done
qed

theorem handleFinishCampaign_updates_witness:
  "distinct (map lead.id (outreachLeads campaign3)) \<and>
   card {i \<in> lead.id ` set (outreachLeads campaign3). markedSent campaign3 i} = 3 \<and>
   sent (stats campaign3) = 0 \<and>
   dailyLimitUsed (stats campaign3) = 0 \<and>
   sent (stats (handleFinishCampaign campaign3)) = 3 \<and>
   dailyLimitUsed (stats (handleFinishCampaign campaign3)) = 3 \<and>
   map lead.status (leads campaign3) = [New, New, New, New, New] \<and>
   map lead.status (leads (handleFinishCampaign campaign3)) =
     [Contacted, Contacted, New, Contacted, New] \<and>
   storedLead ''id-3'' ''C'' \<in> set (leads campaign3) \<and>
   \<not> markedSent campaign3 (lead.id (storedLead ''id-3'' ''C'')) \<and>
   storedLead ''id-3'' ''C'' \<in> set (leads (handleFinishCampaign campaign3))"
proof -
  let ?s = "campaign3"
  note th = handleFinishCampaign_updates [of ?s]
  have dis: "distinct (map lead.id (outreachLeads ?s))"
    by code_simp
  have len: "length (sentLeads ?s) = 3"
    by code_simp
  have s0: "sent (stats ?s) = 0" "dailyLimitUsed (stats ?s) = 0"
    by code_simp+
  have before: "map lead.status (leads ?s) = [New, New, New, New, New]"
    by code_simp
  have c: "storedLead ''id-3'' ''C'' \<in> set (leads ?s)"
    "\<not> markedSent ?s (lead.id (storedLead ''id-3'' ''C''))"
    by code_simp+
  have after: "map lead.status
     (map (\<lambda>l. if \<exists>t \<in> set (outreachLeads ?s). lead.id t = lead.id l \<and> markedSent ?s (lead.id t)
              then l\<lparr>status := Contacted\<rparr> else l) (leads ?s)) =
     [Contacted, Contacted, New, Contacted, New]"
    by code_simp
  from th dis len have card: "card {i \<in> lead.id ` set (outreachLeads ?s). markedSent ?s i} = 3"
    by simp
  from th len s0 have st: "sent (stats (handleFinishCampaign ?s)) = 3"
    "dailyLimitUsed (stats (handleFinishCampaign ?s)) = 3"
    by simp_all
  from th have "leads (handleFinishCampaign ?s) =
     map (\<lambda>l. if \<exists>t \<in> set (outreachLeads ?s). lead.id t = lead.id l \<and> markedSent ?s (lead.id t)
              then l\<lparr>status := Contacted\<rparr> else l) (leads ?s)"
    by blast
  with after have af: "map lead.status (leads (handleFinishCampaign ?s)) =
     [Contacted, Contacted, New, Contacted, New]"
    by simp
  from th c have un: "storedLead ''id-3'' ''C'' \<in> set (leads (handleFinishCampaign ?s))"
    by blast
  from dis card s0 st before af c un show ?thesis
    by blast
qed

section \<open>Properties of the discovery client\<close>

subsection \<open>The regular expression\<close>

lemma upto_last_bracket_None: "upto_last_bracket cs = None \<longleftrightarrow> CHR '']'' \<notin> set cs"
proof -
  have "dropWhile (\<lambda>c. c \<noteq> CHR '']'') (rev cs) = [] \<longleftrightarrow> CHR '']'' \<notin> set cs"
    by (auto simp: dropWhile_eq_Nil_conv)
  then show ?thesis
    by (simp add: upto_last_bracket_def Let_def)
qed

lemma upto_last_bracket_split:
  "CHR '']'' \<notin> set post \<Longrightarrow>
   upto_last_bracket (mid @ CHR '']'' # post) = Some (mid @ [CHR '']''])"
proof -
  assume n: "CHR '']'' \<notin> set post"
  have "dropWhile (\<lambda>c. c \<noteq> CHR '']'') (rev post @ CHR '']'' # rev mid) = CHR '']'' # rev mid"
    using n by (subst dropWhile_append2) auto
  then show ?thesis
    by (simp add: upto_last_bracket_def Let_def)
qed

lemma upto_last_bracket_Some:
  assumes "upto_last_bracket cs = Some m"
  shows "\<exists>mid post. cs = mid @ CHR '']'' # post \<and> CHR '']'' \<notin> set post \<and> m = mid @ [CHR '']'']"
proof -
  let ?P = "\<lambda>c. c \<noteq> CHR '']''"
  from assms have ne: "dropWhile ?P (rev cs) \<noteq> []" and m: "m = rev (dropWhile ?P (rev cs))"
    by (auto simp: upto_last_bracket_def Let_def split: if_splits)
  from ne have "hd (dropWhile ?P (rev cs)) = CHR '']''"
    using hd_dropWhile [of ?P "rev cs"] by simp
  with ne obtain r where r: "dropWhile ?P (rev cs) = CHR '']'' # r"
    by (cases "dropWhile ?P (rev cs)") auto
  have "rev cs = takeWhile ?P (rev cs) @ dropWhile ?P (rev cs)"
    by simp
  with r have "rev cs = takeWhile ?P (rev cs) @ CHR '']'' # r"
    by simp
  then have "cs = rev (takeWhile ?P (rev cs) @ CHR '']'' # r)"
    by (metis rev_rev_ident)
  then have cs: "cs = rev r @ CHR '']'' # rev (takeWhile ?P (rev cs))"
    by simp
  have "CHR '']'' \<notin> set (rev (takeWhile ?P (rev cs)))"
    using set_takeWhileD [of "CHR '']''" ?P "rev cs"] by auto
  moreover from m r have "m = rev r @ [CHR '']'']"
    by simp
  ultimately show ?thesis
    using cs by blast
qed

lemma match_array_skip:
  "CHR ''['' \<notin> set pre \<Longrightarrow> match_array (pre @ rest) = match_array rest"
  by (induction pre) auto

lemma match_array_found:
  assumes "CHR ''['' \<notin> set pre" and "CHR '']'' \<notin> set post"
  shows "match_array (pre @ (CHR ''['' # mid @ [CHR '']'']) @ post) =
     Some (CHR ''['' # mid @ [CHR '']''])"
proof -
  have "match_array (CHR ''['' # mid @ CHR '']'' # post) = Some (CHR ''['' # mid @ [CHR '']''])"
    using assms(2) by (simp add: upto_last_bracket_split)
  then show ?thesis
    using assms(1) by (simp add: match_array_skip)
qed

lemma match_array_Some:
  "match_array resp = Some m \<Longrightarrow>
   \<exists>pre mid post. resp = pre @ m @ post \<and> m = CHR ''['' # mid @ [CHR '']''] \<and>
      CHR ''['' \<notin> set pre \<and> CHR '']'' \<notin> set post"
proof (induction resp)
  case Nil
  then show ?case by simp
next
  case (Cons c cs)
  show ?case
  proof (cases "c = CHR ''['' \<and> upto_last_bracket cs \<noteq> None")
    case True
    then obtain m' where m': "upto_last_bracket cs = Some m'" by auto
    with True Cons.prems have m: "m = c # m'" by simp
    from upto_last_bracket_Some [OF m'] obtain mid post
      where "cs = mid @ CHR '']'' # post" "CHR '']'' \<notin> set post" "m' = mid @ [CHR '']'']"
      by blast
    with m True have "c # cs = [] @ m @ post \<and> m = CHR ''['' # mid @ [CHR '']''] \<and>
      CHR ''['' \<notin> set [] \<and> CHR '']'' \<notin> set post"
      by simp
    then show ?thesis by blast
  next
    case False
    with Cons.prems have "match_array cs = Some m"
      by (auto split: if_splits option.splits)
    from Cons.IH [OF this] obtain pre mid post
      where p: "cs = pre @ m @ post" "m = CHR ''['' # mid @ [CHR '']'']"
        "CHR ''['' \<notin> set pre" "CHR '']'' \<notin> set post"
      by blast
    have nb: "c \<noteq> CHR ''[''"
    proof
      assume c: "c = CHR ''[''"
      with False have "upto_last_bracket cs = None" by simp
      then have "CHR '']'' \<notin> set cs" by (simp add: upto_last_bracket_None)
      with p show False by simp
    qed
    with p have "c # cs = (c # pre) @ m @ post \<and> m = CHR ''['' # mid @ [CHR '']''] \<and>
      CHR ''['' \<notin> set (c # pre) \<and> CHR '']'' \<notin> set post"
      by auto
    then show ?thesis by blast
  qed
qed

lemma match_array_None:
  "match_array resp = None \<longleftrightarrow>
     \<not> (\<exists>a b c. resp = a @ CHR ''['' # b @ CHR '']'' # c)"
proof
  assume n: "match_array resp = None"
  show "\<not> (\<exists>a b c. resp = a @ CHR ''['' # b @ CHR '']'' # c)"
  proof
    assume "\<exists>a b c. resp = a @ CHR ''['' # b @ CHR '']'' # c"
    then obtain a b c where t: "resp = a @ CHR ''['' # b @ CHR '']'' # c" by blast
    define pre where "pre = takeWhile (\<lambda>x. x \<noteq> CHR ''['') resp"
    define rest where "rest = dropWhile (\<lambda>x. x \<noteq> CHR ''['') resp"
    have split: "resp = pre @ rest" by (simp add: pre_def rest_def)
    have pre: "CHR ''['' \<notin> set pre"
      using set_takeWhileD [of "CHR ''[''" "\<lambda>x. x \<noteq> CHR ''[''" resp] by (auto simp: pre_def)
    from t have "CHR ''['' \<in> set resp" by simp
    then have "rest \<noteq> []" by (auto simp: rest_def dropWhile_eq_Nil_conv)
    moreover have "rest \<noteq> [] \<Longrightarrow> hd rest = CHR ''[''"
      using hd_dropWhile [of "\<lambda>x. x \<noteq> CHR ''[''" resp] by (simp add: rest_def)
    ultimately obtain r where r: "rest = CHR ''['' # r" by (cases rest) auto
    have "CHR '']'' \<in> set r"
    proof -
      from t split r have e: "a @ CHR ''['' # b @ CHR '']'' # c = pre @ CHR ''['' # r" by simp
      from pre have "length pre \<le> length a"
      proof -
        have "\<not> length a < length pre"
        proof
          assume l: "length a < length pre"
          from e have "(a @ CHR ''['' # b @ CHR '']'' # c) ! length a = (pre @ CHR ''['' # r) ! length a"
            by simp
          with l have "pre ! length a = CHR ''[''" by (simp add: nth_append)
          with l pre show False by (metis nth_mem)
        qed
        then show ?thesis by simp
      qed
      then obtain d where a: "a = pre @ d" 
        using e by (metis append_eq_append_conv_if append_take_drop_id)
      with e have "d @ CHR ''['' # b @ CHR '']'' # c = CHR ''['' # r" by simp
      then show ?thesis by (cases d) auto
    qed
    then have "upto_last_bracket r \<noteq> None" by (simp add: upto_last_bracket_None)
    then have "match_array (CHR ''['' # r) \<noteq> None" by auto
    with pre split r have "match_array resp \<noteq> None" by (simp add: match_array_skip)
    with n show False by simp
  qed
next
  assume h: "\<not> (\<exists>a b c. resp = a @ CHR ''['' # b @ CHR '']'' # c)"
  show "match_array resp = None"
  proof (rule ccontr)
    assume "match_array resp \<noteq> None"
    then obtain m where "match_array resp = Some m" by auto
    from match_array_Some [OF this] obtain pre mid post
      where "resp = pre @ m @ post" "m = CHR ''['' # mid @ [CHR '']'']" by blast
    then have "resp = pre @ CHR ''['' # mid @ CHR '']'' # post" by simp
    with h show False by blast
  qed
qed

subsection \<open>A text that starts with a bracket parses to an array\<close>

lemma deliver_rooted:
  "st \<noteq> [] \<Longrightarrow> is_array_frame (last st) \<Longrightarrow> deliver v st = Some p \<Longrightarrow> rooted_in_array p"
proof (cases st)
  case Nil
  assume "st \<noteq> []"
  with Nil show ?thesis by simp
next
  case (Cons f st')
  assume l: "is_array_frame (last st)" and d: "deliver v st = Some p"
  show ?thesis
  proof (cases f)
    case (InArray xs)
    with Cons l d show ?thesis by (cases "st' = []") auto
  next
    case (InObject ms k)
    with Cons l have "st' \<noteq> []" by (cases "st' = []") auto
    with Cons InObject l d show ?thesis by (cases k) auto
  qed
qed

lemma start_value_rooted:
  "st \<noteq> [] \<Longrightarrow> is_array_frame (last st) \<Longrightarrow> start_value st t = Some p \<Longrightarrow> rooted_in_array p"
  by (auto simp: start_value_def split: if_splits option.splits dest: deliver_rooted)

lemma close_array_rooted:
  "st \<noteq> [] \<Longrightarrow> is_array_frame (last st) \<Longrightarrow> close_array st = Some p \<Longrightarrow> rooted_in_array p"
proof -
  assume ne: "st \<noteq> []" and l: "is_array_frame (last st)" and c: "close_array st = Some p"
  from c obtain xs st' where st: "st = InArray xs # st'" and d: "deliver (JArray xs) st' = Some p"
    by (auto simp: close_array_def split: list.splits frame.splits)
  show ?thesis
  proof (cases "st' = []")
    case True
    with d show ?thesis by auto
  next
    case False
    with st l have "is_array_frame (last st')" by simp
    with False show ?thesis using d by (rule deliver_rooted)
  qed
qed

lemma close_object_rooted:
  "st \<noteq> [] \<Longrightarrow> is_array_frame (last st) \<Longrightarrow> close_object st = Some p \<Longrightarrow> rooted_in_array p"
proof -
  assume ne: "st \<noteq> []" and l: "is_array_frame (last st)" and c: "close_object st = Some p"
  from c obtain ms st' where st: "st = InObject ms None # st'" and d: "deliver (JObject ms) st' = Some p"
    by (auto simp: close_object_def split: list.splits frame.splits option.splits)
  from st l have ne': "st' \<noteq> []" by (cases "st' = []") auto
  with st l have "is_array_frame (last st')" by simp
  with ne' show ?thesis using d by (rule deliver_rooted)
qed

lemma read_key_rooted:
  "st \<noteq> [] \<Longrightarrow> is_array_frame (last st) \<Longrightarrow> read_key st t = Some p \<Longrightarrow> rooted_in_array p"
proof -
  assume ne: "st \<noteq> []" and l: "is_array_frame (last st)" and c: "read_key st t = Some p"
  from c obtain ms st' k where st: "st = InObject ms None # st'"
    and p: "p = Run (InObject ms (Some k) # st') EColon"
    by (auto simp: read_key_def split: list.splits frame.splits option.splits token.splits)
  from st l have ne': "st' \<noteq> []" by (cases "st' = []") auto
  with st l p show ?thesis by simp
qed

lemma step_rooted:
  assumes "rooted_in_array p" and "step p t = Some p'"
  shows "rooted_in_array p'"
proof (cases p)
  case (Done v)
  with assms show ?thesis by simp
next
  case (Run st ex)
  with assms(1) have ne: "st \<noteq> []" and l: "is_array_frame (last st)" by simp_all
  show ?thesis
  proof (cases ex)
    case EValue
    with Run assms(2) ne l show ?thesis by (auto dest: start_value_rooted)
  next
    case EValueOrClose
    with Run assms(2) ne l show ?thesis
      by (auto split: if_splits dest: start_value_rooted close_array_rooted)
  next
    case ECommaOrClose
    with Run assms(2) ne l show ?thesis
      by (auto split: if_splits list.splits frame.splits dest: close_object_rooted close_array_rooted)
  next
    case EKeyOrClose
    with Run assms(2) ne l show ?thesis
      by (auto split: if_splits dest: close_object_rooted read_key_rooted)
  next
    case EKey
    with Run assms(2) ne l show ?thesis by (auto dest: read_key_rooted)
  next
    case EColon
    with Run assms(2) ne l show ?thesis by (auto split: if_splits)
  qed
qed

lemma steps_rooted:
  "rooted_in_array p \<Longrightarrow> steps p ts = Some p' \<Longrightarrow> rooted_in_array p'"
proof (induction ts arbitrary: p)
  case Nil
  then show ?case by simp
next
  case (Cons t ts)
  from Cons.prems(2) obtain q where q: "step p t = Some q" and r: "steps q ts = Some p'"
    by (auto split: option.splits)
  from Cons.prems(1) q have "rooted_in_array q" by (rule step_rooted)
  from this r show ?case by (rule Cons.IH)
qed

lemma JSON_parse_bracket_is_array:
  assumes "JSON_parse (CHR ''['' # cs) = Some v"
  shows "\<exists>xs. v = JArray xs"
proof -
  have nws: "\<not> is_ws CHR ''[''" by (simp add: is_ws_def)
  from assms obtain ts where ts: "tokenize (CHR ''['' # cs) = Some ts"
    and st: "steps (Run [] EValue) ts = Some (Done v)"
    by (auto simp: JSON_parse_def split: option.splits pstate.splits)
  from ts nws obtain ts' where "ts = TLBracket # ts'" by auto
  with st have "steps (Run [InArray []] EValueOrClose) ts' = Some (Done v)"
    by (simp add: start_value_def)
  moreover have "rooted_in_array (Run [InArray []] EValueOrClose)" by simp
  ultimately have "rooted_in_array (Done v)" using steps_rooted by blast
  then show ?thesis by (cases v) auto
qed

subsection \<open>The parser reads the tokens of every value\<close>

lemma separated_Cons:
  "separated (ts # tss) = ts @ concat (map (\<lambda>us. TComma # us) tss)"
  by (induction tss arbitrary: ts) auto

lemma toks_not_close: "toks v = t # ts \<Longrightarrow> t \<noteq> TRBracket \<and> t \<noteq> TRBrace \<and> t \<noteq> TComma"
  by (cases v) (auto split: if_splits)

lemma toks_nonempty: "toks v \<noteq> []"
  by (cases v) auto

lemma steps_append:
  "steps p (ts @ us) = continue_with (steps p ts) us"
  by (induction ts arbitrary: p) (auto simp: continue_with_def split: option.splits)

lemma reads_atoms:
  "reads JNull" "reads (JBool b)" "reads (JNumber n)" "reads (JString s)"
  by (auto simp: reads_def start_value_def continue_with_def split: option.splits)

lemma elements_rest:
  "(\<And>y. y \<in> set ys \<Longrightarrow> reads y) \<Longrightarrow>
   steps (Run (InArray acc # st) ECommaOrClose)
     (concat (map (\<lambda>us. TComma # us) (map toks ys)) @ TRBracket # rest) =
   continue_with (deliver (JArray (acc @ ys)) st) rest"
proof (induction ys arbitrary: acc)
  case Nil
  then show ?case by (simp add: close_array_def continue_with_def split: option.splits)
next
  case (Cons y ys)
  have "reads y" using Cons.prems by simp
  then have "steps (Run (InArray acc # st) EValue)
      (toks y @ concat (map (\<lambda>us. TComma # us) (map toks ys)) @ TRBracket # rest) =
     steps (Run (InArray (acc @ [y]) # st) ECommaOrClose)
      (concat (map (\<lambda>us. TComma # us) (map toks ys)) @ TRBracket # rest)"
    by (simp add: reads_def continue_with_def)
  also have "\<dots> = continue_with (deliver (JArray ((acc @ [y]) @ ys)) st) rest"
    using Cons.prems by (intro Cons.IH) simp
  finally show ?case by simp
qed

lemma reads_array:
  assumes "\<And>y. y \<in> set xs \<Longrightarrow> reads y"
  shows "reads (JArray xs)"
proof (cases xs)
  case Nil
  then show ?thesis
    by (auto simp: reads_def start_value_def close_array_def continue_with_def split: option.splits)
next
  case (Cons y ys)
  have y: "reads y" using assms Cons by simp
  have ys: "\<And>z. z \<in> set ys \<Longrightarrow> reads z" using assms Cons by simp
  have body: "steps (Run (InArray [] # st) EValueOrClose)
      (separated (map toks xs) @ TRBracket # rest) =
     continue_with (deliver (JArray xs) st) rest" for st rest
  proof -
    have "steps (Run (InArray [] # st) EValueOrClose)
      (toks y @ concat (map (\<lambda>us. TComma # us) (map toks ys)) @ TRBracket # rest) =
      steps (Run (InArray [y] # st) ECommaOrClose)
      (concat (map (\<lambda>us. TComma # us) (map toks ys)) @ TRBracket # rest)"
      using y by (simp add: reads_def continue_with_def)
    also have "\<dots> = continue_with (deliver (JArray ([y] @ ys)) st) rest"
      using ys by (rule elements_rest)
    finally show ?thesis using Cons by (simp add: separated_Cons)
  qed
  show ?thesis
    unfolding reads_def
  proof (intro allI impI)
    fix st ex rest
    assume "ex = EValue \<or> ex = EValueOrClose"
    then have "steps (Run st ex) (toks (JArray xs) @ rest) =
       steps (Run (InArray [] # st) EValueOrClose) (separated (map toks xs) @ TRBracket # rest)"
      by (auto simp: start_value_def)
    with body show "steps (Run st ex) (toks (JArray xs) @ rest) =
       continue_with (deliver (JArray xs) st) rest" by simp
  qed
qed

lemma member_read:
  assumes "reads v"
  shows "steps (Run (InObject acc None # st) ex) (member_toks (k, v) @ rest) =
     (if ex = EKey \<or> ex = EKeyOrClose
      then steps (Run (InObject (acc @ [(k, v)]) None # st) ECommaOrClose) rest
      else steps (Run (InObject acc None # st) ex) (member_toks (k, v) @ rest))"
  using assms by (auto simp: member_toks_def read_key_def reads_def continue_with_def)

lemma members_rest:
  "\<forall>m\<in>set ms. reads (snd m) \<Longrightarrow>
   steps (Run (InObject acc None # st) ECommaOrClose)
     (concat (map (\<lambda>us. TComma # us) (map member_toks ms)) @ TRBrace # rest) =
   continue_with (deliver (JObject (acc @ ms)) st) rest"
proof (induction ms arbitrary: acc)
  case Nil
  then show ?case by (simp add: close_object_def continue_with_def split: option.splits)
next
  case (Cons m ms)
  obtain k v where m: "m = (k, v)" by (cases m)
  have "reads v" using Cons.prems m by simp
  then have "steps (Run (InObject acc None # st) EKey)
      (member_toks (k, v) @ concat (map (\<lambda>us. TComma # us) (map member_toks ms)) @ TRBrace # rest) =
     steps (Run (InObject (acc @ [(k, v)]) None # st) ECommaOrClose)
      (concat (map (\<lambda>us. TComma # us) (map member_toks ms)) @ TRBrace # rest)"
    by (subst member_read) simp_all
  also have "\<dots> = continue_with (deliver (JObject ((acc @ [(k, v)]) @ ms)) st) rest"
    using Cons.prems by (intro Cons.IH) simp
  finally show ?case using m by simp
qed

lemma reads_object:
  assumes "\<forall>m\<in>set ms. reads (snd m)"
  shows "reads (JObject ms)"
proof (cases ms)
  case Nil
  then show ?thesis
    by (auto simp: reads_def start_value_def close_object_def continue_with_def split: option.splits)
next
  case (Cons m ms')
  obtain k v where m: "m = (k, v)" by (cases m)
  have v: "reads v" using assms Cons m by simp
  have ms': "\<forall>m\<in>set ms'. reads (snd m)" using assms Cons by simp
  have body: "steps (Run (InObject [] None # st) EKeyOrClose)
      (separated (map member_toks ms) @ TRBrace # rest) =
     continue_with (deliver (JObject ms) st) rest" for st rest
  proof -
    have "steps (Run (InObject [] None # st) EKeyOrClose)
      (member_toks (k, v) @ concat (map (\<lambda>us. TComma # us) (map member_toks ms')) @ TRBrace # rest) =
      steps (Run (InObject ([] @ [(k, v)]) None # st) ECommaOrClose)
      (concat (map (\<lambda>us. TComma # us) (map member_toks ms')) @ TRBrace # rest)"
      using v by (subst member_read) simp_all
    also have "\<dots> = continue_with (deliver (JObject (([] @ [(k, v)]) @ ms')) st) rest"
      using ms' by (rule members_rest)
    finally show ?thesis using Cons m by (simp add: separated_Cons)
  qed
  show ?thesis
    unfolding reads_def
  proof (intro allI impI)
    fix st ex rest
    assume "ex = EValue \<or> ex = EValueOrClose"
    then have "steps (Run st ex) (toks (JObject ms) @ rest) =
       steps (Run (InObject [] None # st) EKeyOrClose) (separated (map member_toks ms) @ TRBrace # rest)"
      by (auto simp: start_value_def member_toks_def)
    with body show "steps (Run st ex) (toks (JObject ms) @ rest) =
       continue_with (deliver (JObject ms) st) rest" by simp
  qed
qed

lemma reads_all: "reads v"
proof (induction v)
  case (JArray xs)
  then show ?case by (intro reads_array)
next
  case (JObject ms)
  show ?case
  proof (rule reads_object, rule ballI)
    fix m assume m: "m \<in> set ms"
    have "snd m \<in> Basic_BNFs.snds m" by (cases m) simp
    with m show "reads (snd m)" by (rule JObject)
  qed
qed (simp_all add: reads_atoms)

lemma steps_toks: "steps (Run [] EValue) (toks v) = Some (Done v)"
proof -
  have "steps (Run [] EValue) (toks v @ []) = continue_with (deliver v []) []"
    using reads_all [of v] unfolding reads_def by blast
  then show ?thesis by (simp add: continue_with_def)
qed

subsection \<open>The lexer reads every string and number literal\<close>

lemma hex_val_quote: "hex_val (CHR 0x22) = None" "hex_val (CHR 0x5C) = None"
  by (simp_all add: hex_val_def)

lemma hex4_Some:
  "hex4 hs = Some u \<Longrightarrow> length hs = 4 \<and> (\<forall>c\<in>set hs. hex_val c \<noteq> None)"
  by (auto simp: hex4_def split: list.splits option.splits)

lemma hex4_short: "length hs < 4 \<Longrightarrow> hex4 hs = None"
  using hex4_Some [of hs] by (cases "hex4 hs") auto

lemma low_escape_quote: "low_escape (src @ CHR 0x22 # rest) = low_escape src"
proof (cases "6 \<le> length src")
  case True
  then show ?thesis by (simp add: low_escape_def)
next
  case False
  define A where "A = src @ CHR 0x22 # rest"
  have short: "low_escape src = None"
    using False by (simp add: low_escape_def hex4_short)
  have len: "length src < length (take 6 A)"
    using False by (simp add: A_def)
  have "take 6 A ! length src = CHR 0x22"
    using False by (simp add: A_def nth_append)
  with len have q: "CHR 0x22 \<in> set (take 6 A)"
    by (metis nth_mem)
  have split: "take 6 A = take 2 A @ take 4 (drop 2 A)"
    using take_add [of 2 4 A] by simp
  have "low_escape A = None"
  proof (rule ccontr)
    assume "low_escape A \<noteq> None"
    then obtain lo where t2: "take 2 A = [CHR 0x5C, CHR ''u'']"
      and h: "hex4 (take 4 (drop 2 A)) = Some lo"
      by (auto simp: low_escape_def split: if_splits option.splits)
    from h have hx: "\<forall>c\<in>set (take 4 (drop 2 A)). hex_val c \<noteq> None"
      using hex4_Some by blast
    from q split have "CHR 0x22 \<in> set (take 2 A) \<or> CHR 0x22 \<in> set (take 4 (drop 2 A))"
      by (metis Un_iff set_append)
    with t2 hx show False by (auto simp: hex_val_quote)
  qed
  with short show ?thesis by (simp add: A_def)
qed

lemma unescape_not_u: "unescape e = Some x \<Longrightarrow> e \<noteq> CHR ''u''"
  by (auto simp: unescape_def)

lemma scan_string_spells:
  "spells src d \<Longrightarrow> scan_string (src @ CHR 0x22 # rest) = Some (d, Suc (length src))"
proof (induction rule: spells.induct)
  case spells_end
  show ?case by simp
next
  case (spells_plain c src d)
  then show ?case by simp
next
  case (spells_escape e x src d)
  then show ?case by (simp add: unescape_not_u)
next
  case (spells_unicode hs u src d)
  have "(if is_high u then low_escape (src @ CHR 0x22 # rest) else None) = None"
    using spells_unicode(3) by (simp add: low_escape_quote)
  moreover have "scan_string (CHR 0x5C # CHR ''u'' # hs @ src @ CHR 0x22 # rest) =
    (case (if is_high u then low_escape (src @ CHR 0x22 # rest) else None) of
       Some lo \<Rightarrow> map_option (\<lambda>(s, n). (utf8 (pair_point u lo) @ s, n + 12))
                   (scan_string (drop 10 (hs @ src @ CHR 0x22 # rest)))
     | None \<Rightarrow> map_option (\<lambda>(s, n). (utf8 u @ s, n + 6)) (scan_string (src @ CHR 0x22 # rest)))"
    using spells_unicode(1,2) by (simp cong: option.case_cong)
  ultimately show ?case using spells_unicode by simp
next
  case (spells_pair hs hi ls lo src d)
  have "low_escape (CHR 0x5C # CHR ''u'' # ls @ src @ CHR 0x22 # rest) = Some lo"
    using spells_pair by (simp add: low_escape_def)
  with spells_pair show ?case by simp
qed

lemma spells_plain_chars: "list_all plain_char s \<Longrightarrow> spells s s"
  by (induction s) (auto simp: plain_char_def intro: spells.intros)

lemma digits_append:
  "list_all is_digit ds \<Longrightarrow> r = [] \<or> \<not> is_digit (hd r) \<Longrightarrow> digits (ds @ r) = length ds"
proof -
  assume d: "list_all is_digit ds" and r: "r = [] \<or> \<not> is_digit (hd r)"
  have "takeWhile is_digit (ds @ r) = ds @ takeWhile is_digit r"
    using d by (simp add: takeWhile_append2 list_all_iff)
  moreover have "takeWhile is_digit r = []"
    using r by (cases r) auto
  ultimately show ?thesis by (simp add: digits_def)
qed

lemma not_digit: "\<not> is_digit (CHR ''.'')" "\<not> is_digit (CHR ''e'')" "\<not> is_digit (CHR ''E'')"
  "\<not> is_digit (CHR ''-'')" "\<not> is_digit (CHR ''+'')"
  by (simp_all add: is_digit_def)

lemma scan_exponent_part:
  assumes "exp_part ep" and "ends_number r"
  shows "scan_exponent (ep @ r) = Some (length ep)"
proof (cases "ep = []")
  case True
  with assms(2) show ?thesis
    by (cases r) (auto simp: scan_exponent_def ends_number_def)
next
  case False
  with assms(1) obtain e sg ds where ep: "ep = e # sg @ ds" and e: "e = CHR ''e'' \<or> e = CHR ''E''"
    and sg: "sg = [] \<or> sg = ''+'' \<or> sg = ''-''" and ds: "ds \<noteq> []" "list_all is_digit ds"
    by (auto simp: exp_part_def)
  from assms(2) have r: "r = [] \<or> \<not> is_digit (hd r)" by (auto simp: ends_number_def)
  from ds(2) r have dg: "digits (ds @ r) = length ds" by (rule digits_append)
  from ds obtain d ds' where dd: "ds = d # ds'" "is_digit d" by (cases ds) auto
  then have nd: "d \<noteq> CHR ''+''" "d \<noteq> CHR ''-''" using not_digit by auto
  from sg show ?thesis
  proof (elim disjE)
    assume "sg = []"
    with ep e dg dd nd ds show ?thesis by (auto simp: scan_exponent_def Let_def)
  next
    assume "sg = ''+''"
    with ep e dg ds show ?thesis by (auto simp: scan_exponent_def Let_def)
  next
    assume "sg = ''-''"
    with ep e dg ds show ?thesis by (auto simp: scan_exponent_def Let_def)
  qed
qed

lemma exp_part_ends:
  assumes "exp_part ep" and "ends_number r"
  shows "ep @ r = [] \<or> \<not> (is_digit (hd (ep @ r)) \<or> hd (ep @ r) = CHR ''.'')"
  using assms by (cases "ep = []") (auto simp: exp_part_def ends_number_def not_digit)

lemma scan_fraction_part:
  assumes "frac_part fp" and "exp_part ep" and "ends_number r"
  shows "scan_fraction (fp @ ep @ r) = Some (length fp)"
proof (cases "fp = []")
  case True
  with exp_part_ends [OF assms(2,3)] show ?thesis
    by (cases "ep @ r") (auto simp: scan_fraction_def)
next
  case False
  with assms(1) obtain ds where fp: "fp = CHR ''.'' # ds" and ds: "ds \<noteq> []" "list_all is_digit ds"
    by (auto simp: frac_part_def)
  have "ep @ r = [] \<or> \<not> is_digit (hd (ep @ r))"
    using exp_part_ends [OF assms(2,3)] by blast
  with ds(2) have "digits (ds @ ep @ r) = length ds" by (rule digits_append)
  with fp ds show ?thesis by (simp add: scan_fraction_def)
qed

lemma frac_part_ends:
  assumes "frac_part fp" and "exp_part ep" and "ends_number r"
  shows "fp @ ep @ r = [] \<or> \<not> is_digit (hd (fp @ ep @ r))"
proof (cases "fp = []")
  case True
  with exp_part_ends [OF assms(2,3)] show ?thesis by auto
next
  case False
  with assms(1) show ?thesis by (auto simp: frac_part_def not_digit)
qed

lemma scan_number_unsigned:
  assumes "int_part ip" and "frac_part fp" and "exp_part ep" and "ends_number r"
  shows "scan_number (ip @ fp @ ep @ r) = Some (length (ip @ fp @ ep))"
proof -
  from assms(1) have ne: "ip \<noteq> []" and dig: "list_all is_digit ip"
    by (auto simp: int_part_def is_digit_def)
  from ne obtain c ip' where ip: "ip = c # ip'" by (cases ip) auto
  with dig have c: "c \<noteq> CHR ''-''" using not_digit by auto
  have d: "digits (ip @ fp @ ep @ r) = length ip"
    using dig frac_part_ends [OF assms(2,3,4)] by (rule digits_append)
  have z: "\<not> (1 < length ip \<and> hd (ip @ fp @ ep @ r) = CHR ''0'')"
    using assms(1) ne by (auto simp: int_part_def)
  have f: "scan_fraction (fp @ ep @ r) = Some (length fp)"
    using assms(2,3,4) by (rule scan_fraction_part)
  have e: "scan_exponent (ep @ r) = Some (length ep)"
    using assms(3,4) by (rule scan_exponent_part)
  have sg: "(case ip @ fp @ ep @ r of [] \<Rightarrow> 0 | x # _ \<Rightarrow> if x = CHR ''-'' then 1 else (0::nat)) = 0"
    using ip c by simp
  show ?thesis
    unfolding scan_number_def sg Let_def using d z f e ne by simp
qed

lemma scan_number_signed:
  assumes "int_part ip" and "frac_part fp" and "exp_part ep" and "ends_number r"
  shows "scan_number (CHR ''-'' # ip @ fp @ ep @ r) = Some (Suc (length (ip @ fp @ ep)))"
proof -
  from assms(1) have ne: "ip \<noteq> []" and dig: "list_all is_digit ip"
    by (auto simp: int_part_def is_digit_def)
  have d: "digits (ip @ fp @ ep @ r) = length ip"
    using dig frac_part_ends [OF assms(2,3,4)] by (rule digits_append)
  have z: "\<not> (1 < length ip \<and> hd (ip @ fp @ ep @ r) = CHR ''0'')"
    using assms(1) ne by (auto simp: int_part_def)
  have f: "scan_fraction (fp @ ep @ r) = Some (length fp)"
    using assms(2,3,4) by (rule scan_fraction_part)
  have e: "scan_exponent (ep @ r) = Some (length ep)"
    using assms(3,4) by (rule scan_exponent_part)
  show ?thesis
    unfolding scan_number_def Let_def using d z f e ne by simp
qed

lemma scan_number_lexeme:
  assumes "number_lexeme n" and "ends_number r"
  shows "scan_number (n @ r) = Some (length n)"
proof -
  from assms(1) obtain sg ip fp ep where n: "n = sg @ ip @ fp @ ep" and sg: "sg = [] \<or> sg = ''-''"
    and parts: "int_part ip" "frac_part fp" "exp_part ep"
    by (auto simp: number_lexeme_def)
  from sg show ?thesis
  proof
    assume "sg = []"
    with n scan_number_unsigned [OF parts assms(2)] show ?thesis by simp
  next
    assume "sg = ''-''"
    with n scan_number_signed [OF parts assms(2)] show ?thesis by simp
  qed
qed

lemma number_lexeme_start:
  assumes "number_lexeme n"
  shows "\<exists>c cs. n = c # cs \<and> (c = CHR ''-'' \<or> is_digit c)"
proof -
  from assms obtain sg ip fp ep where n: "n = sg @ ip @ fp @ ep" and sg: "sg = [] \<or> sg = ''-''"
    and ip: "int_part ip"
    by (auto simp: number_lexeme_def)
  from ip obtain c ip' where "ip = c # ip'" "is_digit c"
    by (cases ip) (auto simp: int_part_def is_digit_def)
  with n sg show ?thesis by auto
qed

lemma is_ws_cases: "is_ws c \<longleftrightarrow> c = CHR 0x20 \<or> c = CHR 0x09 \<or> c = CHR 0x0A \<or> c = CHR 0x0D"
  by (auto simp: is_ws_def)

lemma digit_not_ws: "is_digit c \<Longrightarrow> \<not> is_ws c \<and> c \<notin> set ''[]{},:'' \<and> c \<noteq> CHR 0x22"
  by (auto simp: is_digit_def is_ws_cases)

lemma tokenize_lexes: "lexes s ts \<Longrightarrow> tokenize s = Some ts"
proof (induction rule: lexes.induct)
  case (lexes_string src d r ts)
  have "scan_string (src @ CHR 0x22 # r) = Some (d, Suc (length src))"
    using lexes_string(1) by (rule scan_string_spells)
  with lexes_string(3) show ?case by (simp add: is_ws_cases)
next
  case (lexes_number n r ts)
  from number_lexeme_start [OF lexes_number(1)] obtain c cs
    where n: "n = c # cs" and c: "c = CHR ''-'' \<or> is_digit c" by blast
  have sc: "scan_number (c # cs @ r) = Some (Suc (length cs))"
    using scan_number_lexeme [OF lexes_number(1,2)] n by simp
  have nc: "\<not> is_ws c \<and> c \<notin> set ''[]{},:'' \<and> c \<noteq> CHR 0x22"
  proof (cases "c = CHR ''-''")
    case True
    then show ?thesis by (simp add: is_ws_cases)
  next
    case False
    with c have "is_digit c" by simp
    then show ?thesis by (rule digit_not_ws)
  qed
  have "tokenize (c # cs @ r) =
     map_option (Cons (TNumber (take (Suc (length cs)) (c # cs @ r))))
       (tokenize (drop (Suc (length cs) - 1) (cs @ r)))"
    using nc c sc by (subst tokenize.simps) auto
  with lexes_number(4) n show ?case by simp
qed (simp_all add: is_ws_cases is_digit_def)

lemma JSON_parse_text: "json_text s v \<Longrightarrow> JSON_parse s = Some v"
  by (simp add: json_text_def JSON_parse_def tokenize_lexes steps_toks)

subsection \<open>Texts in the usual spelling\<close>

lemma lexes_white: "list_all is_ws w \<Longrightarrow> lexes r ts \<Longrightarrow> lexes (w @ r) ts"
  by (induction w) (auto intro: lexes.intros)

lemma spell_starts:
  "\<forall>n. t \<noteq> TNumber n \<Longrightarrow>
   \<exists>c cs. spell t = c # cs \<and>
      \<not> (is_digit c \<or> c = CHR ''.'' \<or> c = CHR ''e'' \<or> c = CHR ''E'')"
  by (cases t) (auto simp: is_digit_def)

lemma layout_ends:
  assumes "list_all (\<lambda>(w, t). list_all is_ws w) wts"
    and "no_adjacent_numbers (TNumber n # map snd wts)"
  shows "ends_number (layout wts)"
proof (cases wts)
  case Nil
  then show ?thesis by (simp add: layout_def ends_number_def)
next
  case (Cons p wts')
  obtain w t where p: "p = (w, t)" by (cases p)
  show ?thesis
  proof (cases w)
    case Nil
    from assms(2) Cons p have nn: "\<forall>n'. t \<noteq> TNumber n'" by (cases t) auto
    from spell_starts [OF nn] obtain c cs where "spell t = c # cs"
      "\<not> (is_digit c \<or> c = CHR ''.'' \<or> c = CHR ''e'' \<or> c = CHR ''E'')" by blast
    with Cons p Nil show ?thesis by (simp add: layout_def ends_number_def)
  next
    case (Cons c w')
    with assms(1) \<open>wts = p # wts'\<close> p have "is_ws c" by simp
    then have "\<not> (is_digit c \<or> c = CHR ''.'' \<or> c = CHR ''e'' \<or> c = CHR ''E'')"
      by (auto simp: is_ws_cases is_digit_def)
    with Cons \<open>wts = p # wts'\<close> p show ?thesis by (simp add: layout_def ends_number_def)
  qed
qed

lemma no_adjacent_tail: "no_adjacent_numbers (t # ts) \<Longrightarrow> no_adjacent_numbers ts"
  by (induction "t # ts" rule: no_adjacent_numbers.induct) auto

lemma lexes_spell:
  assumes "spellable t" and "lexes r ts" and "\<forall>n. t = TNumber n \<longrightarrow> ends_number r"
  shows "lexes (spell t @ r) (t # ts)"
proof (cases t)
  case (TString s)
  with assms(1) have "spells s s" by (simp add: spells_plain_chars)
  from this assms(2) have "lexes (CHR 0x22 # s @ CHR 0x22 # r) (TString s # ts)"
    by (rule lexes_string)
  with TString show ?thesis by simp
next
  case (TNumber n)
  with assms show ?thesis by (auto intro: lexes_number)
next
  case TTrue
  with lexes_true [OF assms(2)] show ?thesis by simp
next
  case TFalse
  with lexes_false [OF assms(2)] show ?thesis by simp
next
  case TNull
  with lexes_null [OF assms(2)] show ?thesis by simp
qed (use assms(2) in \<open>auto intro: lexes.intros\<close>)

lemma lexes_layout:
  "list_all (\<lambda>(w, t). list_all is_ws w \<and> spellable t) wts \<Longrightarrow>
   no_adjacent_numbers (map snd wts) \<Longrightarrow>
   lexes (layout wts) (map snd wts)"
proof (induction wts)
  case Nil
  show ?case by (simp add: layout_def lexes_end)
next
  case (Cons p wts)
  obtain w t where p: "p = (w, t)" by (cases p)
  from Cons.prems p have w: "list_all is_ws w" and t: "spellable t"
    and rest: "list_all (\<lambda>(w, t). list_all is_ws w \<and> spellable t) wts" by simp_all
  from Cons.prems(2) p have na: "no_adjacent_numbers (map snd wts)"
    using no_adjacent_tail [of t "map snd wts"] by simp
  from rest na have ih: "lexes (layout wts) (map snd wts)" by (rule Cons.IH)
  have ws: "list_all (\<lambda>(w, t). list_all is_ws w) wts"
    using rest by (auto simp: list_all_iff)
  have "\<forall>n. t = TNumber n \<longrightarrow> ends_number (layout wts)"
    using Cons.prems(2) p ws by (auto intro: layout_ends)
  with t ih have "lexes (spell t @ layout wts) (t # map snd wts)" by (rule lexes_spell)
  with w have "lexes (w @ spell t @ layout wts) (t # map snd wts)" by (rule lexes_white)
  with p show ?case by (simp add: layout_def)
qed

lemma number_lexeme_sample: "number_lexeme ''4.5''"
proof -
  have "''4.5'' = [] @ ''4'' @ ''.5'' @ [] \<and> ([] = [] \<or> [] = ''-'') \<and>
        int_part ''4'' \<and> frac_part ''.5'' \<and> exp_part []"
    by (simp add: int_part_def frac_part_def exp_part_def is_digit_def)
  then show ?thesis unfolding number_lexeme_def by blast
qed

lemma twoLeads_text: "json_text twoLeadsArray (JArray [firstLead, secondLead])"
proof -
  have lay: "twoLeadsArray = layout twoLeadsLayout"
    by code_simp
  have tk: "toks (JArray [firstLead, secondLead]) = map snd twoLeadsLayout"
    by code_simp
  have ok: "list_all (\<lambda>(w, t). list_all is_ws w \<and> spellable t) twoLeadsLayout"
    by (simp add: twoLeadsLayout_def number_lexeme_sample is_ws_cases plain_char_def)
  have na: "no_adjacent_numbers (map snd twoLeadsLayout)"
    by code_simp
  from ok na have "lexes (layout twoLeadsLayout) (map snd twoLeadsLayout)"
    by (rule lexes_layout)
  with lay tk show ?thesis by (simp add: json_text_def)
qed

lemma utf8_U1F600: "utf8 (pair_point 0xD83D 0xDE00) = [CHR 0xF0, CHR 0x9F, CHR 0x98, CHR 0x80]"
  by (simp add: pair_point_def utf8_def char_of_def bit_0)

lemma JSON_parse_surrogate_pair:
  "JSON_parse emojiArray = Some (JArray [JString [CHR 0xF0, CHR 0x9F, CHR 0x98, CHR 0x80]])"
proof -
  have hi: "hex4 ''d83d'' = Some 0xD83D" and lo: "hex4 ''de00'' = Some 0xDE00"
    by (simp_all add: hex4_def hex_val_def)
  have "spells (CHR 0x5C # CHR ''u'' # ''d83d'' @ CHR 0x5C # CHR ''u'' # ''de00'' @ [])
          (utf8 (pair_point 0xD83D 0xDE00) @ [])"
    using hi lo by (intro spells_pair spells_end) (simp_all add: is_high_def is_low_def)
  then have "spells ([CHR 0x5C] @ ''ud83d'' @ [CHR 0x5C] @ ''ude00'')
          [CHR 0xF0, CHR 0x9F, CHR 0x98, CHR 0x80]"
    by (simp add: utf8_U1F600)
  moreover have "lexes '']'' [TRBracket]"
    by (intro lexes_rbracket lexes_end)
  ultimately have "lexes (CHR 0x22 # ([CHR 0x5C] @ ''ud83d'' @ [CHR 0x5C] @ ''ude00'') @ CHR 0x22 # '']'')
      [TString [CHR 0xF0, CHR 0x9F, CHR 0x98, CHR 0x80], TRBracket]"
    by (rule lexes_string)
  then have "lexes (CHR ''['' # CHR 0x22 # ([CHR 0x5C] @ ''ud83d'' @ [CHR 0x5C] @ ''ude00'') @ CHR 0x22 # '']'')
      [TLBracket, TString [CHR 0xF0, CHR 0x9F, CHR 0x98, CHR 0x80], TRBracket]"
    by (rule lexes_lbracket)
  then have "json_text emojiArray (JArray [JString [CHR 0xF0, CHR 0x9F, CHR 0x98, CHR 0x80]])"
    by (simp add: json_text_def emojiArray_def)
  then show ?thesis
    by (rule JSON_parse_text)
qed

subsection \<open>Reading properties\<close>

lemma property_last:
  "k \<notin> fst ` set ms' \<Longrightarrow> property k (JObject (ms @ (k, w) # ms')) = Some w"
proof -
  assume "k \<notin> fst ` set ms'"
  then have "map_of (rev ms') k = None"
    by (simp add: map_of_eq_None_iff)
  then show ?thesis
    by (simp add: property_def map_add_def)
qed

lemma property_absent: "k \<notin> fst ` set ms \<Longrightarrow> property k (JObject ms) = None"
  by (simp add: property_def map_of_eq_None_iff)

subsection \<open>The first call, and a text that does not parse\<close>

lemma discoverLeads_first_call:
  "generateContent 0 = Inr response_text \<Longrightarrow>
   discoverLeads parseError generateContent random =
     (case parse_discovery parseError response_text of
        Inr v \<Rightarrow> \<lparr>result = Inr v, delays = [], calls = 1\<rparr>
      | Inl e \<Rightarrow>
          withRetry
            (\<lambda>i. case generateContent i of
                    Inl e \<Rightarrow> Inl e
                  | Inr response_text \<Rightarrow> parse_discovery parseError response_text)
            defaultMaxRetries random)"
  by (cases "parse_discovery parseError response_text")
     (simp_all add: discoverLeads_def withRetry_def defaultMaxRetries_def loop_success)

lemma discoverLeads_parse_error:
  assumes same: "\<forall>i. generateContent i = Inr (Some resp)"
    and span: "match_array resp = Some m"
    and invalid: "JSON_parse m = None"
  shows "discoverLeads parseError generateContent random =
     (if isRateLimit (parseError m)
      then \<lparr>result = Inl (parseError m),
             delays = [1000 + random 0 * 1000, 2000 + random 1 * 1000], calls = 3\<rparr>
      else \<lparr>result = Inl (parseError m), delays = [], calls = 1\<rparr>)"
proof -
  define fn where "fn = (\<lambda>i. case generateContent i of
      Inl e \<Rightarrow> Inl e
    | Inr response_text \<Rightarrow> parse_discovery parseError response_text)"
  have fn: "fn i = Inl (parseError m)" for i
    using same span invalid by (simp add: fn_def parse_discovery_def)
  have dl: "discoverLeads parseError generateContent random = withRetry fn 3 random"
    by (simp add: discoverLeads_def fn_def defaultMaxRetries_def)
  show ?thesis
  proof (cases "isRateLimit (parseError m)")
    case True
    have "withRetry fn 3 random =
       \<lparr>result = fn (nat 3 - 1),
        delays = map (\<lambda>j. 2 ^ j * 1000 + random j * 1000) [0..<nat 3 - 1],
        calls = nat 3\<rparr>"
      using True fn by (intro withRetry_exhausted) auto
    moreover have "[0..<nat 3 - 1] = [0, 1]" by (simp add: upt_rec)
    ultimately show ?thesis using True dl fn by simp
  next
    case False
    have "withRetry_loop fn 3 random 0 Nullish [] =
       \<lparr>result = Inl (parseError m), delays = [], calls = Suc 0\<rparr>"
      using fn False by (intro loop_throw_other) auto
    with False dl show ?thesis by (simp add: withRetry_def)
  qed
qed

lemma discoverLeads_quoted_quota_retried:
  "JSON_parse ''[quota]'' = None \<and>
   discoverLeads quotingSyntaxError (respond ''[quota]'') halfJitter =
     \<lparr>result = Inl (quotingSyntaxError ''[quota]''), delays = [1500, 2500], calls = 3\<rparr>"
proof -
  have inv: "JSON_parse ''[quota]'' = None"
    by code_simp
  have "\<forall>i. respond ''[quota]'' i = Inr (Some ''[quota]'')"
    by (simp add: respond_def)
  moreover have "match_array ''[quota]'' = Some ''[quota]''"
    by code_simp
  moreover have "isRateLimit (quotingSyntaxError ''[quota]'')"
    by code_simp
  ultimately have "discoverLeads quotingSyntaxError (respond ''[quota]'') halfJitter =
     \<lparr>result = Inl (quotingSyntaxError ''[quota]''),
      delays = [1000 + halfJitter 0 * 1000, 2000 + halfJitter 1 * 1000], calls = 3\<rparr>"
    using inv by (simp add: discoverLeads_parse_error)
  with inv show ?thesis by (simp add: halfJitter_def)
qed

subsection \<open>The claims about the discovery client\<close>

text \<open>
  Claim C3, as the code has it. When the first generation call resolves with a text
  whose part from the first \<open>[\<close> to the last \<open>]\<close> is a JSON text (of the grammar of
  ECMA-404), \<^verbatim>\<open>discoverLeads\<close> extracts exactly that part and returns, without retry or
  delay, the value of that text. The value is an array; the text consists of \<open>[\<close>, the
  tokens of its elements separated by commas, and \<open>]\<close>, so there are as many candidates
  as the array of the text has elements, in the same order. Reading a property of a
  candidate that is an object gives the value of the last member of that name in the
  text, and \<^verbatim>\<open>undefined\<close> when the object has no member of that name.
\<close>

theorem discoverLeads_parses_bracket_span:
  assumes call: "generateContent 0 = Inr (Some resp)"
    and span: "resp = pre @ m @ post" "m = CHR ''['' # mid @ [CHR '']'']"
      "CHR ''['' \<notin> set pre" "CHR '']'' \<notin> set post"
    and valid: "json_text m v"
  shows "match_array resp = Some m \<and>
    JSON_parse m = Some v \<and>
    (\<exists>xs. v = JArray xs \<and>
       lexes m (TLBracket # separated (map toks xs) @ [TRBracket]) \<and>
       discoverLeads parseError generateContent random =
         \<lparr>result = Inr (JArray xs), delays = [], calls = 1\<rparr> \<and>
       (\<forall>i ms k w ms'. i < length xs \<and> xs ! i = JObject (ms @ (k, w) # ms') \<and>
          k \<notin> fst ` set ms' \<longrightarrow> property k (xs ! i) = Some w) \<and>
       (\<forall>i ms k. i < length xs \<and> xs ! i = JObject ms \<and> k \<notin> fst ` set ms \<longrightarrow>
          property k (xs ! i) = None))"
proof -
  from span have ma: "match_array resp = Some m"
    using match_array_found [of pre post mid] by simp
  from valid have parse: "JSON_parse m = Some v"
    by (rule JSON_parse_text)
  with ma have pd: "parse_discovery parseError (Some resp) = Inr v"
    by (simp add: parse_discovery_def)
  from parse span(2) obtain xs where xs: "v = JArray xs"
    using JSON_parse_bracket_is_array by blast
  from valid xs have lx: "lexes m (TLBracket # separated (map toks xs) @ [TRBracket])"
    by (simp add: json_text_def)
  from call pd have run:
    "discoverLeads parseError generateContent random = \<lparr>result = Inr v, delays = [], calls = 1\<rparr>"
    by (simp add: discoverLeads_first_call)
  have "\<forall>i ms k w ms'. i < length xs \<and> xs ! i = JObject (ms @ (k, w) # ms') \<and>
          k \<notin> fst ` set ms' \<longrightarrow> property k (xs ! i) = Some w"
    by (simp add: property_last)
  moreover have "\<forall>i ms k. i < length xs \<and> xs ! i = JObject ms \<and> k \<notin> fst ` set ms \<longrightarrow>
          property k (xs ! i) = None"
    by (simp add: property_absent)
  ultimately show ?thesis
    using ma parse xs lx run by blast
qed

theorem discoverLeads_parses_bracket_span_witness:
  "twoLeadsResponse = ''Here are 2 leads: '' @ twoLeadsArray @ '' Let me know.'' \<and>
   match_array twoLeadsResponse = Some twoLeadsArray \<and>
   JSON_parse twoLeadsArray = Some (JArray [firstLead, secondLead]) \<and>
   discoverLeads quotingSyntaxError (respond twoLeadsResponse) halfJitter =
     \<lparr>result = Inr (JArray [firstLead, secondLead]), delays = [], calls = 1\<rparr> \<and>
   property ''businessName'' ([firstLead, secondLead] ! 0) = Some (JString ''Cafe [Mitte]'') \<and>
   property ''city'' ([firstLead, secondLead] ! 0) = Some (JString ''Berlin'') \<and>
   property ''businessName'' ([firstLead, secondLead] ! 1) = Some (JString ''B'') \<and>
   property ''website'' ([firstLead, secondLead] ! 1) = Some JNull \<and>
   property ''city'' ([firstLead, secondLead] ! 1) = None"
proof -
  have call: "respond twoLeadsResponse 0 = Inr (Some twoLeadsResponse)"
    by (simp add: respond_def)
  have span: "twoLeadsResponse = ''Here are 2 leads: '' @ twoLeadsArray @ '' Let me know.''"
    by (simp add: twoLeadsResponse_def)
  have m: "twoLeadsArray = CHR ''['' # butlast (tl twoLeadsArray) @ [CHR '']'']"
    by code_simp
  have pre: "CHR ''['' \<notin> set ''Here are 2 leads: ''"
    by simp
  have post: "CHR '']'' \<notin> set '' Let me know.''"
    by simp
  have valid: "json_text twoLeadsArray (JArray [firstLead, secondLead])"
    by (rule twoLeads_text)
  have all: "match_array twoLeadsResponse = Some twoLeadsArray \<and>
    JSON_parse twoLeadsArray = Some (JArray [firstLead, secondLead]) \<and>
    (\<exists>xs. JArray [firstLead, secondLead] = JArray xs \<and>
       lexes twoLeadsArray (TLBracket # separated (map toks xs) @ [TRBracket]) \<and>
       discoverLeads quotingSyntaxError (respond twoLeadsResponse) halfJitter =
         \<lparr>result = Inr (JArray xs), delays = [], calls = 1\<rparr> \<and>
       (\<forall>i ms k w ms'. i < length xs \<and> xs ! i = JObject (ms @ (k, w) # ms') \<and>
          k \<notin> fst ` set ms' \<longrightarrow> property k (xs ! i) = Some w) \<and>
       (\<forall>i ms k. i < length xs \<and> xs ! i = JObject ms \<and> k \<notin> fst ` set ms \<longrightarrow>
          property k (xs ! i) = None))"
    using call span m pre post valid
    by (rule discoverLeads_parses_bracket_span)
  then obtain xs where xs: "JArray [firstLead, secondLead] = JArray xs"
    and run: "discoverLeads quotingSyntaxError (respond twoLeadsResponse) halfJitter =
         \<lparr>result = Inr (JArray xs), delays = [], calls = 1\<rparr>"
    and last: "\<forall>i ms k w ms'. i < length xs \<and> xs ! i = JObject (ms @ (k, w) # ms') \<and>
          k \<notin> fst ` set ms' \<longrightarrow> property k (xs ! i) = Some w"
    and absent: "\<forall>i ms k. i < length xs \<and> xs ! i = JObject ms \<and> k \<notin> fst ` set ms \<longrightarrow>
          property k (xs ! i) = None"
    by blast
  from xs have xs': "xs = [firstLead, secondLead]" by simp
  have f0: "[firstLead, secondLead] ! 0 =
      JObject ([] @ (''businessName'', JString ''Cafe [Mitte]'') #
        [(''city'', JString ''Berlin''), (''rating'', JNumber ''4.5''),
         (''tags'', JArray [JString ''wifi'', JString ''vegan''])])"
    by (simp add: firstLead_def)
  have f1: "[firstLead, secondLead] ! 0 =
      JObject ([(''businessName'', JString ''Cafe [Mitte]'')] @ (''city'', JString ''Berlin'') #
        [(''rating'', JNumber ''4.5''), (''tags'', JArray [JString ''wifi'', JString ''vegan''])])"
    by (simp add: firstLead_def)
  have s0: "[firstLead, secondLead] ! 1 =
      JObject ([] @ (''businessName'', JString ''B'') # [(''website'', JNull)])"
    by (simp add: secondLead_def)
  have s1: "[firstLead, secondLead] ! 1 =
      JObject ([(''businessName'', JString ''B'')] @ (''website'', JNull) # [])"
    by (simp add: secondLead_def)
  have s2: "[firstLead, secondLead] ! 1 = JObject [(''businessName'', JString ''B''), (''website'', JNull)]"
    by (simp add: secondLead_def)
  have p0: "property ''businessName'' ([firstLead, secondLead] ! 0) = Some (JString ''Cafe [Mitte]'')"
    using last [unfolded xs', rule_format, of 0 "[]" "''businessName''" "JString ''Cafe [Mitte]''"
        "[(''city'', JString ''Berlin''), (''rating'', JNumber ''4.5''),
          (''tags'', JArray [JString ''wifi'', JString ''vegan''])]"] f0
    by simp
  have p1: "property ''city'' ([firstLead, secondLead] ! 0) = Some (JString ''Berlin'')"
    using last [unfolded xs', rule_format, of 0 "[(''businessName'', JString ''Cafe [Mitte]'')]"
        "''city''" "JString ''Berlin''"
        "[(''rating'', JNumber ''4.5''), (''tags'', JArray [JString ''wifi'', JString ''vegan''])]"] f1
    by simp
  have p2: "property ''businessName'' ([firstLead, secondLead] ! 1) = Some (JString ''B'')"
    using last [unfolded xs', rule_format, of 1 "[]" "''businessName''" "JString ''B''"
        "[(''website'', JNull)]"] s0
    by simp
  have p3: "property ''website'' ([firstLead, secondLead] ! 1) = Some JNull"
    using last [unfolded xs', rule_format, of 1 "[(''businessName'', JString ''B'')]"
        "''website''" JNull "[]"] s1
    by simp
  have p4: "property ''city'' ([firstLead, secondLead] ! 1) = None"
    using absent [unfolded xs', rule_format, of 1 "[(''businessName'', JString ''B''), (''website'', JNull)]"
        "''city''"] s2
    by simp
  from all run xs' span p0 p1 p2 p3 p4 show ?thesis
    by simp
qed

theorem discoverLeads_first_array_counterexample:
  "citedResponse = sampleArray @ '' [1]'' \<and>
   JSON_parse sampleArray =
     Some (JArray [JObject [(''businessName'', JString ''A''), (''city'', JString ''Berlin'')]]) \<and>
   match_array citedResponse = Some citedResponse \<and>
   JSON_parse citedResponse = None \<and>
   \<not> isRateLimit (quotingSyntaxError citedResponse) \<and>
   discoverLeads quotingSyntaxError (respond citedResponse) halfJitter =
     \<lparr>result = Inl (quotingSyntaxError citedResponse), delays = [], calls = 1\<rparr>"
proof -
  have "citedResponse = sampleArray @ '' [1]''"
    by (simp add: citedResponse_def)
  moreover have "JSON_parse sampleArray =
     Some (JArray [JObject [(''businessName'', JString ''A''), (''city'', JString ''Berlin'')]])"
    by code_simp
  moreover have "match_array citedResponse = Some citedResponse"
    by code_simp
  moreover have "JSON_parse citedResponse = None"
    by code_simp
  moreover have "\<not> isRateLimit (quotingSyntaxError citedResponse)"
    by code_simp
  moreover have "discoverLeads quotingSyntaxError (respond citedResponse) halfJitter =
     \<lparr>result = Inl (quotingSyntaxError citedResponse), delays = [], calls = 1\<rparr>"
    by code_simp
  ultimately show ?thesis
    by blast
qed

text \<open>
  Claim C4. When the first generation call resolves with a text (possibly absent) in
  which no \<open>[\<close> is followed by a \<open>]\<close>, \<^verbatim>\<open>discoverLeads\<close> resolves with the empty list; it
  does not throw and does not retry.
\<close>

theorem discoverLeads_no_array_empty:
  assumes call: "generateContent 0 = Inr response_text"
    and none: "\<not> (\<exists>a b c. (case response_text of None \<Rightarrow> [] | Some t \<Rightarrow> t) =
                 a @ CHR ''['' # b @ CHR '']'' # c)"
  shows "discoverLeads parseError generateContent random =
     \<lparr>result = Inr (JArray []), delays = [], calls = 1\<rparr>"
proof -
  from none have "match_array (case response_text of None \<Rightarrow> [] | Some t \<Rightarrow> t) = None"
    by (simp add: match_array_None)
  then have "parse_discovery parseError response_text = Inr (JArray [])"
    by (simp add: parse_discovery_def)
  with call show ?thesis
    by (simp add: discoverLeads_first_call)
qed

theorem discoverLeads_no_array_empty_witness:
  "match_array proseResponse = None \<and>
   discoverLeads quotingSyntaxError (respond proseResponse) halfJitter =
     \<lparr>result = Inr (JArray []), delays = [], calls = 1\<rparr>"
proof -
  have call: "respond proseResponse 0 = Inr (Some proseResponse)"
    by (simp add: respond_def)
  have none: "match_array proseResponse = None"
    by code_simp
  then have "\<not> (\<exists>a b c. (case Some proseResponse of None \<Rightarrow> [] | Some t \<Rightarrow> t) =
                 a @ CHR ''['' # b @ CHR '']'' # c)"
    by (simp add: match_array_None)
  with call discoverLeads_no_array_empty [of "respond proseResponse" "Some proseResponse"
    quotingSyntaxError halfJitter]
  have "discoverLeads quotingSyntaxError (respond proseResponse) halfJitter =
     \<lparr>result = Inr (JArray []), delays = [], calls = 1\<rparr>"
    by blast
  with none show ?thesis
    by simp
qed


end
